theory Spec2Isabelle
  imports Main
begin

text \<open>
  The error detection of claude-context-mem: \<open>detectBashError\<close> and \<open>extractErrorFeatures\<close>
  (utils/error-detection.ts) and the handler that calls them (cli/handlers/observation.ts).
  The regular expressions of the program are kept as patterns and run by a backtracking
  matcher; JavaScript values, \<open>parseInt\<close> and \<open>JSON.stringify\<close> are modelled as far as the
  program uses them; what a function throws is the \<open>Inl\<close> of its result, and the lines it
  logs and the requests it sends are returned beside the result.
\<close>

section \<open>Characters\<close>

text \<open>
  A JavaScript string is a sequence of UTF-16 code units. The model uses \<open>string\<close>: one
  \<open>char\<close> per code unit, for texts whose code units lie in 0..255 (Latin-1). All pattern
  characters of the program are ASCII.
\<close>

definition code_unit :: "char \<Rightarrow> nat" where
  "code_unit c = of_char c"

text \<open>
  \<open>Canonicalize\<close> of a case-insensitive pattern without the unicode flag maps a code unit to
  its upper-case form when that is a single code unit. Within Latin-1 these are a-z and
  the accented letters 0xE0..0xFE (without the division sign 0xF7).
\<close>

definition toUpperCase_char :: "char \<Rightarrow> char" where
  "toUpperCase_char c =
     (let n = code_unit c
      in if (97 \<le> n \<and> n \<le> 122) \<or> (224 \<le> n \<and> n \<le> 254 \<and> n \<noteq> 247)
         then char_of (n - 32) else c)"

definition toLowerCase_char :: "char \<Rightarrow> char" where
  "toLowerCase_char c =
     (let n = code_unit c
      in if (65 \<le> n \<and> n \<le> 90) \<or> (192 \<le> n \<and> n \<le> 222 \<and> n \<noteq> 215)
         then char_of (n + 32) else c)"

text \<open>\<open>\d\<close> is 0-9.\<close>

definition is_digit :: "char \<Rightarrow> bool" where
  "is_digit c = (48 \<le> code_unit c \<and> code_unit c \<le> 57)"

text \<open>\<open>\s\<close>: white space and line terminators (tab, LF, VT, FF, CR, space, NBSP).\<close>

definition is_space :: "char \<Rightarrow> bool" where
  "is_space c =
     ((9 \<le> code_unit c \<and> code_unit c \<le> 13) \<or> code_unit c = 32 \<or> code_unit c = 160)"

text \<open>\<open>\w\<close> is a-z, A-Z, 0-9 and the underscore.\<close>

definition is_word :: "char \<Rightarrow> bool" where
  "is_word c =
     (let n = code_unit c
      in (97 \<le> n \<and> n \<le> 122) \<or> (65 \<le> n \<and> n \<le> 90) \<or> (48 \<le> n \<and> n \<le> 57) \<or> n = 95)"

definition is_line_terminator :: "char \<Rightarrow> bool" where
  "is_line_terminator c = (code_unit c = 10 \<or> code_unit c = 13)"

section \<open>Regular expressions\<close>

text \<open>
  The fragment of ECMAScript patterns that the program uses: pattern characters, \<open>.\<close>,
  the escapes \<open>\d \s \w\<close>, ranges and character classes, sequence, alternation, the greedy
  quantifiers \<open>* + ?\<close>, capturing groups (numbered), and the word boundary \<open>\b\<close>.
\<close>

datatype atom = Lit char | Dot | Digit | Space | Word | CharRange char char

datatype regex =
    Atom atom
  | Class "atom list"
  | Seq regex regex
  | Alt regex regex
  | Star regex
  | Plus regex
  | Opt regex
  | Group nat regex
  | Boundary
  | Empty

fun atom_set :: "atom \<Rightarrow> char \<Rightarrow> bool" where
  "atom_set (Lit a) c = (c = a)"
| "atom_set Dot c = (\<not> is_line_terminator c)"
| "atom_set Digit c = is_digit c"
| "atom_set Space c = is_space c"
| "atom_set Word c = is_word c"
| "atom_set (CharRange a b) c = (code_unit a \<le> code_unit c \<and> code_unit c \<le> code_unit b)"

text \<open>
  A character matches a set when the set has a member with the same canonical form; with
  \<open>ignoreCase\<close> off the canonical form is the character itself.
\<close>

definition atom_match :: "bool \<Rightarrow> atom \<Rightarrow> char \<Rightarrow> bool" where
  "atom_match ci a c =
     (atom_set a c \<or> (ci \<and> (atom_set a (toUpperCase_char c) \<or> atom_set a (toLowerCase_char c))))"

text \<open>
  The matcher state: the character before the current position (for \<open>\b\<close>), the input from
  the current position on, and the captures so far (latest first).
\<close>

record mstate =
  prev :: "char option"
  rest :: string
  caps :: "(nat \<times> string) list"

definition consumed :: "mstate \<Rightarrow> mstate \<Rightarrow> string" where
  "consumed st st' = take (length (rest st) - length (rest st')) (rest st)"

definition progress :: "mstate \<Rightarrow> mstate \<Rightarrow> bool" where
  "progress st st' = (length (rest st') < length (rest st))"

definition step_char :: "(char \<Rightarrow> bool) \<Rightarrow> mstate \<Rightarrow> mstate list" where
  "step_char P st =
     (case rest st of
        [] \<Rightarrow> []
      | c # cs \<Rightarrow> if P c then [st\<lparr>prev := Some c, rest := cs\<rparr>] else [])"

definition at_boundary :: "mstate \<Rightarrow> bool" where
  "at_boundary st =
     ((case prev st of None \<Rightarrow> False | Some c \<Rightarrow> is_word c)
      \<noteq> (case rest st of [] \<Rightarrow> False | c # _ \<Rightarrow> is_word c))"

text \<open>
  \<open>ms r ci st\<close> lists the states in which a match of \<open>r\<close> begun at \<open>st\<close> can end, in the
  order in which a backtracking matcher tries them: the head is the matcher's choice,
  the tail what it falls back to. \<open>iterate n m\<close> is the greedy repetition of \<open>m\<close>, at most
  \<open>n\<close> times; an iteration that consumes nothing is not continued.
\<close>

primrec iterate :: "nat \<Rightarrow> (mstate \<Rightarrow> mstate list) \<Rightarrow> mstate \<Rightarrow> mstate list" where
  "iterate 0 m st = [st]"
| "iterate (Suc n) m st =
     concat (map (\<lambda>st'. if progress st st' then iterate n m st' else []) (m st)) @ [st]"

primrec ms :: "regex \<Rightarrow> bool \<Rightarrow> mstate \<Rightarrow> mstate list" where
  "ms (Atom a) ci st = step_char (atom_match ci a) st"
| "ms (Class as) ci st = step_char (\<lambda>c. \<exists>a \<in> set as. atom_match ci a c) st"
| "ms (Seq r s) ci st = concat (map (ms s ci) (ms r ci st))"
| "ms (Alt r s) ci st = ms r ci st @ ms s ci st"
| "ms (Star r) ci st = iterate (length (rest st)) (ms r ci) st"
| "ms (Plus r) ci st =
     concat (map (\<lambda>st'. iterate (length (rest st')) (ms r ci) st') (ms r ci st))"
| "ms (Opt r) ci st = filter (progress st) (ms r ci st) @ [st]"
| "ms (Group n r) ci st =
     map (\<lambda>st'. st'\<lparr>caps := (n, consumed st st') # caps st'\<rparr>) (ms r ci st)"
| "ms Boundary ci st = (if at_boundary st then [st] else [])"
| "ms Empty ci st = [st]"

text \<open>A \<open>RegExp\<close> object: its pattern (\<open>source\<close>, parsed) and its flags.\<close>

record regexp =
  source :: regex
  ignoreCase :: bool
  global :: bool

text \<open>A match result: \<open>index\<close>, \<open>match[0]\<close> and the captured groups.\<close>

record match_result =
  index :: nat
  matched :: string
  groups :: "(nat \<times> string) list"

definition group :: "match_result \<Rightarrow> nat \<Rightarrow> string option" where
  "group m n = map_of (groups m) n"

text \<open>
  \<open>exec_from re p s i\<close>: the leftmost match in \<open>s\<close>, which is the input from index \<open>i\<close> on,
  \<open>p\<close> being the character before it. \<open>None\<close> is JavaScript's \<open>null\<close>.
\<close>

fun exec_from :: "regexp \<Rightarrow> char option \<Rightarrow> string \<Rightarrow> nat \<Rightarrow> match_result option" where
  "exec_from re p [] i =
     (case ms (source re) (ignoreCase re) \<lparr>prev = p, rest = [], caps = []\<rparr> of
        st' # _ \<Rightarrow> Some \<lparr>index = i, matched = [], groups = caps st'\<rparr>
      | [] \<Rightarrow> None)"
| "exec_from re p (c # cs) i =
     (case ms (source re) (ignoreCase re) \<lparr>prev = p, rest = c # cs, caps = []\<rparr> of
        st' # _ \<Rightarrow>
          Some \<lparr>index = i,
                matched = take (length (c # cs) - length (rest st')) (c # cs),
                groups = caps st'\<rparr>
      | [] \<Rightarrow> exec_from re (Some c) cs (Suc i))"

text \<open>\<open>RegExp.prototype.exec\<close>, \<open>RegExp.prototype.test\<close> and \<open>String.prototype.match\<close> for a
  pattern without the \<open>g\<close> flag.\<close>

definition exec :: "regexp \<Rightarrow> string \<Rightarrow> match_result option" where
  "exec re s = exec_from re None s 0"

definition test :: "regexp \<Rightarrow> string \<Rightarrow> bool" where
  "test re s = (exec re s \<noteq> None)"

text \<open>
  \<open>String.prototype.match\<close> with the \<open>g\<close> flag collects \<open>match[0]\<close> of the successive
  matches: after a match the search resumes at its end, one further on when the match
  was empty, and stops when that lies beyond the end of the input.
\<close>

function match_all :: "regexp \<Rightarrow> char option \<Rightarrow> string \<Rightarrow> string list" where
  "match_all re p s =
     (case exec_from re p s 0 of
        None \<Rightarrow> []
      | Some m \<Rightarrow>
          matched m #
          (let k = index m + max 1 (length (matched m))
           in if k \<le> length s then match_all re (Some (s ! (k - 1))) (drop k s) else []))"
  by pat_completeness auto
termination
  by (relation "measure (\<lambda>(re, p, s). length s)") auto

definition match_global :: "regexp \<Rightarrow> string \<Rightarrow> string list option" where
  "match_global re s = (case match_all re None s of [] \<Rightarrow> None | x # xs \<Rightarrow> Some (x # xs))"

text \<open>Pattern text without operators: a sequence of pattern characters.\<close>

definition lit :: "string \<Rightarrow> regex" where
  "lit s = foldr (\<lambda>c r. Seq (Atom (Lit c)) r) s Empty"

section \<open>JavaScript values\<close>

text \<open>
  A \<open>Number\<close> is modelled by its integer value, or \<open>NaN\<close>. This is exact for the integers a
  double represents exactly (all below \<open>2^53\<close> in magnitude); the rounding of larger values,
  fractions and infinities are outside the model.
\<close>

datatype number = NaN | Finite int

text \<open>
  The values a \<open>tool_response\<close> of type \<open>unknown\<close> can hold. An object is the list of its own
  enumerable properties in enumeration order, keys distinct. Cyclic structures and objects
  with a \<open>toJSON\<close> method are outside the model.
\<close>

datatype jsvalue =
    JUndefined
  | JNull
  | JBoolean bool
  | JNumber number
  | JString string
  | JArray "jsvalue list"
  | JObject "(string \<times> jsvalue) list"
  | JBigInt int
  | JFunction
  | JSymbol

datatype error = Error string | TypeError string

text \<open>Truthiness (\<open>ToBoolean\<close>), \<open>a || b\<close> and \<open>a ?? b\<close>.\<close>

fun truthy :: "jsvalue \<Rightarrow> bool" where
  "truthy JUndefined = False"
| "truthy JNull = False"
| "truthy (JBoolean b) = b"
| "truthy (JNumber n) = (n \<noteq> NaN \<and> n \<noteq> Finite 0)"
| "truthy (JString s) = (s \<noteq> [])"
| "truthy (JBigInt i) = (i \<noteq> 0)"
| "truthy v = True"

definition js_or :: "jsvalue \<Rightarrow> jsvalue \<Rightarrow> jsvalue" where
  "js_or a b = (if truthy a then a else b)"

definition nullish :: "jsvalue \<Rightarrow> jsvalue \<Rightarrow> jsvalue" where
  "nullish a b = (if a = JUndefined \<or> a = JNull then b else a)"

subsection \<open>Numbers and text\<close>

definition digit_char :: "nat \<Rightarrow> char" where
  "digit_char n = char_of (48 + n)"

fun show_nat :: "nat \<Rightarrow> string" where
  "show_nat n = (if n < 10 then [digit_char n] else show_nat (n div 10) @ [digit_char (n mod 10)])"

definition show_int :: "int \<Rightarrow> string" where
  "show_int i = (if i < 0 then CHR ''-'' # show_nat (nat (- i)) else show_nat (nat i))"

text \<open>The value of a character as a digit in a radix up to 36; 36 when it is none.\<close>

definition digit_value :: "char \<Rightarrow> nat" where
  "digit_value c =
     (let n = code_unit c
      in if 48 \<le> n \<and> n \<le> 57 then n - 48
         else if 97 \<le> n \<and> n \<le> 122 then n - 87
         else if 65 \<le> n \<and> n \<le> 90 then n - 55
         else 36)"

definition radix_value :: "nat \<Rightarrow> string \<Rightarrow> nat" where
  "radix_value R z = foldl (\<lambda>acc c. acc * R + digit_value c) 0 z"

text \<open>
  \<open>parseInt(string)\<close> with no radix argument: leading white space is skipped, then a sign,
  then a \<open>0x\<close> or \<open>0X\<close> prefix selects radix 16 (10 otherwise); the longest prefix of digits
  of that radix is the value, and \<open>NaN\<close> results when it is empty. The value is the
  mathematical integer the digits denote; the rounding of a JavaScript number, which sets
  in above \<open>2^53\<close>, is not represented.
\<close>

definition parseInt :: "string \<Rightarrow> number" where
  "parseInt inputString =
     (let S = dropWhile is_space inputString;
          neg = (S \<noteq> [] \<and> hd S = CHR ''-'');
          S1 = (if S \<noteq> [] \<and> (hd S = CHR ''-'' \<or> hd S = CHR ''+'') then tl S else S);
          hex = (take 2 S1 = ''0x'' \<or> take 2 S1 = ''0X'');
          R = (if hex then 16 else 10);
          S2 = (if hex then drop 2 S1 else S1);
          Z = takeWhile (\<lambda>c. digit_value c < R) S2
      in if Z = [] then NaN
         else Finite (if neg then - int (radix_value R Z) else int (radix_value R Z)))"

text \<open>\<open>parseInt(match[1])\<close>: a group that did not take part is \<open>undefined\<close>, which parses to
  \<open>NaN\<close>.\<close>

definition parseInt_group :: "string option \<Rightarrow> number" where
  "parseInt_group g = (case g of None \<Rightarrow> NaN | Some s \<Rightarrow> parseInt s)"

subsection \<open>JSON.stringify\<close>

definition hex_char :: "nat \<Rightarrow> char" where
  "hex_char n = (if n < 10 then char_of (48 + n) else char_of (87 + n))"

definition quote_char :: "char \<Rightarrow> string" where
  "quote_char c =
     (let n = code_unit c
      in if n = 8 then [CHR 0x5C, CHR ''b'']
         else if n = 9 then [CHR 0x5C, CHR ''t'']
         else if n = 10 then [CHR 0x5C, CHR ''n'']
         else if n = 12 then [CHR 0x5C, CHR ''f'']
         else if n = 13 then [CHR 0x5C, CHR ''r'']
         else if n = 34 then [CHR 0x5C, CHR 0x22]
         else if n = 92 then [CHR 0x5C, CHR 0x5C]
         else if n < 32 then
           [CHR 0x5C, CHR ''u'', CHR ''0'', CHR ''0'', hex_char (n div 16), hex_char (n mod 16)]
         else [c])"

definition QuoteJSONString :: "string \<Rightarrow> string" where
  "QuoteJSONString s = CHR 0x22 # concat (map quote_char s) @ [CHR 0x22]"

fun join :: "string \<Rightarrow> string list \<Rightarrow> string" where
  "join sep [] = []"
| "join sep [x] = x"
| "join sep (x # y # ys) = x @ sep @ join sep (y # ys)"

text \<open>The first error of a list of results, or all the values.\<close>

fun collect :: "(error + 'a) list \<Rightarrow> error + 'a list" where
  "collect [] = Inr []"
| "collect (Inl e # rs) = Inl e"
| "collect (Inr x # rs) = (case collect rs of Inl e \<Rightarrow> Inl e | Inr xs \<Rightarrow> Inr (x # xs))"

text \<open>
  \<open>SerializeJSONProperty\<close>: \<open>Inr None\<close> is the result \<open>undefined\<close> (for \<open>undefined\<close>, a function
  or a symbol), \<open>Inl\<close> the \<open>TypeError\<close> thrown for a BigInt. In an array a value without
  serialization is written \<open>null\<close>; in an object its property is left out.
\<close>

fun SerializeJSONProperty :: "jsvalue \<Rightarrow> error + string option" where
  "SerializeJSONProperty JUndefined = Inr None"
| "SerializeJSONProperty JFunction = Inr None"
| "SerializeJSONProperty JSymbol = Inr None"
| "SerializeJSONProperty JNull = Inr (Some ''null'')"
| "SerializeJSONProperty (JBoolean b) = Inr (Some (if b then ''true'' else ''false''))"
| "SerializeJSONProperty (JNumber n) =
     Inr (Some (case n of NaN \<Rightarrow> ''null'' | Finite i \<Rightarrow> show_int i))"
| "SerializeJSONProperty (JString s) = Inr (Some (QuoteJSONString s))"
| "SerializeJSONProperty (JBigInt i) = Inl (TypeError ''Do not know how to serialize a BigInt'')"
| "SerializeJSONProperty (JArray xs) =
     (case collect (map SerializeJSONProperty xs) of
        Inl e \<Rightarrow> Inl e
      | Inr ys \<Rightarrow>
          Inr (Some (''['' @ join '','' (map (\<lambda>y. case y of None \<Rightarrow> ''null'' | Some t \<Rightarrow> t) ys)
                     @ '']'')))"
| "SerializeJSONProperty (JObject kvs) =
     (case collect (map (\<lambda>kv. SerializeJSONProperty (snd kv)) kvs) of
        Inl e \<Rightarrow> Inl e
      | Inr ys \<Rightarrow>
          Inr (Some (''{'' @ join '',''
                       (concat (map (\<lambda>(k, y). case y of None \<Rightarrow> []
                                      | Some t \<Rightarrow> [QuoteJSONString k @ '':'' @ t])
                                    (zip (map fst kvs) ys)))
                     @ ''}'')))"

definition JSON_stringify :: "jsvalue \<Rightarrow> error + string option" where
  "JSON_stringify v = SerializeJSONProperty v"

section \<open>Error detection (error-detection.ts)\<close>

record ErrorDetectionResult =
  isError :: bool
  errorMessage :: "string option"
  exitCode :: "number option"

record ErrorFeatures =
  errorType :: string
  keywords' :: "string list"
  filePath :: "string option"

text \<open>A line written through the logger: component and message (the data argument is
  not recorded).\<close>

datatype log_event = Debug string string | DataIn string string

definition digits :: regex where
  "digits = Group 1 (Plus (Atom Digit))"

text \<open>The three patterns, in the order of the source:
  \<^verbatim>\<open>/exit code[:\s]+(\d+)/i\<close>, \<^verbatim>\<open>/exited with code (\d+)/i\<close>, \<^verbatim>\<open>/returned (\d+)/i\<close>.\<close>

definition EXIT_CODE_PATTERNS :: "regexp list" where
  "EXIT_CODE_PATTERNS =
     [\<lparr>source = Seq (lit ''exit code'') (Seq (Plus (Class [Lit CHR '':'', Space])) digits),
       ignoreCase = True, global = False\<rparr>,
      \<lparr>source = Seq (lit ''exited with code '') digits, ignoreCase = True, global = False\<rparr>,
      \<lparr>source = Seq (lit ''returned '') digits, ignoreCase = True, global = False\<rparr>]"

text \<open>\<^verbatim>\<open>/error:/i\<close>, \<^verbatim>\<open>/ERR!/i\<close>,
  \<^verbatim>\<open>/(?:build|test|command|process|task|job|compilation)\s+failed/i\<close>, \<^verbatim>\<open>/exception/i\<close>.\<close>

definition ERROR_KEYWORD_PATTERNS :: "regexp list" where
  "ERROR_KEYWORD_PATTERNS =
     [\<lparr>source = lit ''error:'', ignoreCase = True, global = False\<rparr>,
      \<lparr>source = lit ''ERR!'', ignoreCase = True, global = False\<rparr>,
      \<lparr>source =
         Seq (Alt (lit ''build'') (Alt (lit ''test'') (Alt (lit ''command'')
                (Alt (lit ''process'') (Alt (lit ''task'') (Alt (lit ''job'')
                  (lit ''compilation'')))))))
             (Seq (Plus (Atom Space)) (lit ''failed'')),
       ignoreCase = True, global = False\<rparr>,
      \<lparr>source = lit ''exception'', ignoreCase = True, global = False\<rparr>]"

text \<open>\<^verbatim>\<open>/TypeError/i\<close>, \<^verbatim>\<open>/SyntaxError/i\<close>, \<^verbatim>\<open>/ReferenceError/i\<close>,
  \<^verbatim>\<open>/ModuleNotFoundError/i\<close>, \<^verbatim>\<open>/npm ERR!/i\<close>, \<^verbatim>\<open>/pip.*error/i\<close>, \<^verbatim>\<open>/cargo.*error/i\<close>,
  \<^verbatim>\<open>/tsc.*error/i\<close>, each with its tag.\<close>

definition ERROR_TYPE_PATTERNS :: "(regexp \<times> string) list" where
  "ERROR_TYPE_PATTERNS =
     [(\<lparr>source = lit ''TypeError'', ignoreCase = True, global = False\<rparr>, ''TypeError''),
      (\<lparr>source = lit ''SyntaxError'', ignoreCase = True, global = False\<rparr>, ''SyntaxError''),
      (\<lparr>source = lit ''ReferenceError'', ignoreCase = True, global = False\<rparr>,
       ''ReferenceError''),
      (\<lparr>source = lit ''ModuleNotFoundError'', ignoreCase = True, global = False\<rparr>,
       ''ModuleNotFoundError''),
      (\<lparr>source = lit ''npm ERR!'', ignoreCase = True, global = False\<rparr>, ''npm''),
      (\<lparr>source = Seq (lit ''pip'') (Seq (Star (Atom Dot)) (lit ''error'')),
        ignoreCase = True, global = False\<rparr>, ''pip''),
      (\<lparr>source = Seq (lit ''cargo'') (Seq (Star (Atom Dot)) (lit ''error'')),
        ignoreCase = True, global = False\<rparr>, ''cargo''),
      (\<lparr>source = Seq (lit ''tsc'') (Seq (Star (Atom Dot)) (lit ''error'')),
        ignoreCase = True, global = False\<rparr>, ''typescript'')]"

text \<open>\<^verbatim>\<open>/\b([A-Z][A-Z0-9_]+)\b/g\<close>\<close>

definition CODE_PATTERN :: regexp where
  "CODE_PATTERN =
     \<lparr>source =
        Seq Boundary
          (Seq (Group 1
                  (Seq (Class [CharRange CHR ''A'' CHR ''Z''])
                       (Plus (Class [CharRange CHR ''A'' CHR ''Z'', CharRange CHR ''0'' CHR ''9'',
                                     Lit CHR ''_'']))))
               Boundary),
      ignoreCase = False, global = True\<rparr>"

text \<open>\<^verbatim>\<open>/(?:\/[\w.-]+)+(?:\.\w+)?/\<close>\<close>

definition PATH_PATTERN :: regexp where
  "PATH_PATTERN =
     \<lparr>source =
        Seq (Plus (Seq (Atom (Lit CHR ''/'')) (Plus (Class [Word, Lit CHR ''.'', Lit CHR ''-'']))))
            (Opt (Seq (Atom (Lit CHR ''.'')) (Plus (Atom Word)))),
      ignoreCase = False, global = False\<rparr>"

text \<open>
  The value of \<open>response\<close>: a string response as it is, anything else through
  \<open>JSON.stringify(input.tool_response ?? '')\<close>, which throws (\<open>Inl\<close>) or yields a string or
  \<open>undefined\<close> (\<open>Inr None\<close>).
\<close>

definition coerce_response :: "jsvalue \<Rightarrow> error + string option" where
  "coerce_response tool_response =
     (case tool_response of
        JString s \<Rightarrow> Inr (Some s)
      | _ \<Rightarrow> JSON_stringify (nullish tool_response (JString [])))"

text \<open>The first loop: \<open>Some\<close> is the value returned from inside the loop, \<open>None\<close> means the
  loop ran to its end.\<close>

fun exit_code_loop :: "regexp list \<Rightarrow> string \<Rightarrow> ErrorDetectionResult option" where
  "exit_code_loop [] response = None"
| "exit_code_loop (pattern # patterns) response =
     (case exec pattern response of
        None \<Rightarrow> exit_code_loop patterns response
      | Some m \<Rightarrow>
          if parseInt_group (group m 1) \<noteq> Finite 0
          then Some \<lparr>isError = True, errorMessage = Some response,
                     exitCode = Some (parseInt_group (group m 1))\<rparr>
          else exit_code_loop patterns response)"

text \<open>The second loop, with the line it logs.\<close>

fun keyword_loop :: "regexp list \<Rightarrow> string \<Rightarrow> (log_event list \<times> ErrorDetectionResult) option" where
  "keyword_loop [] response = None"
| "keyword_loop (pattern # patterns) response =
     (if test pattern response
      then Some ([Debug ''SYSTEM'' ''error keyword detected''],
                 \<lparr>isError = True, errorMessage = Some response, exitCode = None\<rparr>)
      else keyword_loop patterns response)"

record detect_input =
  tool_name :: string
  tool_response :: jsvalue

text \<open>
  \<open>detectBashError\<close> returns the lines logged and the result, or the error it throws.
  Calling \<open>match\<close> on a \<open>response\<close> that is \<open>undefined\<close> throws a \<open>TypeError\<close>.
\<close>

definition detectBashError :: "detect_input \<Rightarrow> error + (log_event list \<times> ErrorDetectionResult)" where
  "detectBashError input =
     (if tool_name input \<noteq> ''Bash''
      then Inr ([], \<lparr>isError = False, errorMessage = None, exitCode = None\<rparr>)
      else
        case coerce_response (tool_response input) of
          Inl e \<Rightarrow> Inl e
        | Inr None \<Rightarrow> Inl (TypeError ''Cannot read properties of undefined'')
        | Inr (Some response) \<Rightarrow>
            (case exit_code_loop EXIT_CODE_PATTERNS response of
               Some r \<Rightarrow> Inr ([], r)
             | None \<Rightarrow>
                 (case keyword_loop ERROR_KEYWORD_PATTERNS response of
                    Some lr \<Rightarrow> Inr lr
                  | None \<Rightarrow> Inr ([], \<lparr>isError = False, errorMessage = None, exitCode = None\<rparr>))))"

text \<open>The loop over the catalog, with its \<open>break\<close>.\<close>

fun error_type_loop :: "(regexp \<times> string) list \<Rightarrow> string \<Rightarrow> string \<Rightarrow> string" where
  "error_type_loop [] message current = current"
| "error_type_loop ((pattern, tag) # patterns) message current =
     (if test pattern message then tag
      else error_type_loop patterns message current)"

definition extractErrorFeatures :: "string \<Rightarrow> ErrorFeatures" where
  "extractErrorFeatures message =
     \<lparr>errorType = error_type_loop ERROR_TYPE_PATTERNS message ''unknown'',
      keywords' =
        (case match_global CODE_PATTERN message of
           None \<Rightarrow> []
         | Some codeMatch \<Rightarrow> filter (\<lambda>k. length k > 3) codeMatch),
      filePath = map_option matched (exec PATH_PATTERN message)\<rparr>"

section \<open>The observation handler (cli/handlers/observation.ts)\<close>

text \<open>
  The fields of \<open>NormalizedHookInput\<close> that the handler reads; an absent field is \<open>None\<close>
  (\<open>JUndefined\<close> for the two of type \<open>unknown\<close>).
\<close>

record NormalizedHookInput =
  sessionId :: string
  cwd :: "string option"
  toolName :: "string option"
  toolInput :: jsvalue
  toolResponse :: jsvalue

record HookResult =
  continue :: bool
  suppressOutput :: bool

text \<open>
  What the handler does to the outside, in order: lines logged, requests sent with
  \<open>fetch\<close>, text printed with \<open>console.log\<close>.
\<close>

datatype effect =
    EnsureWorkerRunning
  | Log log_event
  | Post string string
  | Get string
  | ConsoleLog string

text \<open>
  The collaborators that are not part of these files, as parameters: whether
  \<open>ensureWorkerRunning\<close> rejects, the worker port, \<open>logger.formatTool\<close>, the outcome of
  the observation request (a rejection or a status), whether the error request rejects,
  and the outcome of the similar-errors query (a failure anywhere inside its \<open>try\<close>, or
  the status and the titles of the \<open>errors\<close> received, none when there is no such list).
\<close>

record world =
  ensureWorkerRunning :: "error option"
  getWorkerPort :: nat
  formatTool :: "string \<Rightarrow> jsvalue \<Rightarrow> string"
  observation_response :: "error + nat"
  error_response :: "error option"
  similar_response :: "error + nat \<times> string option list"

definition ok :: "nat \<Rightarrow> bool" where
  "ok status = (200 \<le> status \<and> status \<le> 299)"

definition upper_hex :: "nat \<Rightarrow> char" where
  "upper_hex n = (if n < 10 then char_of (48 + n) else char_of (55 + n))"

definition percent :: "nat \<Rightarrow> string" where
  "percent b = [CHR ''%'', upper_hex (b div 16), upper_hex (b mod 16)]"

text \<open>\<open>encodeURIComponent\<close>: the UTF-8 bytes of every character but the unreserved ones,
  percent-encoded.\<close>

definition encode_char :: "char \<Rightarrow> string" where
  "encode_char c =
     (let n = code_unit c
      in if is_word c \<or> c \<in> set ''-.!~*()'' \<or> n = 39 then [c]
         else if n < 128 then percent n
         else percent (192 + n div 64) @ percent (128 + n mod 64))"

definition encodeURIComponent :: "string \<Rightarrow> string" where
  "encodeURIComponent s = concat (map encode_char s)"

definition worker_url :: "nat \<Rightarrow> string \<Rightarrow> string" where
  "worker_url port path = ''http://127.0.0.1:'' @ show_nat port @ path"

definition opt_string :: "string option \<Rightarrow> jsvalue" where
  "opt_string s = (case s of None \<Rightarrow> JUndefined | Some x \<Rightarrow> JString x)"

text \<open>\<open>errorResult.errorMessage || ''\<close>\<close>

definition message_or_empty :: "string option \<Rightarrow> string" where
  "message_or_empty m = (case m of None \<Rightarrow> [] | Some x \<Rightarrow> x)"

text \<open>
  The part of \<open>execute\<close> that runs when an error was detected: the error record is sent
  without waiting for it, then similar errors are queried and their titles printed. A
  rejection of the error request is only logged, by a handler that runs once the query
  has been issued: its line is recorded right after the query, the earliest place where
  it can appear. The heading printed above the titles is a fixed text and is left out of
  the recorded line.
\<close>

definition report_error ::
  "world \<Rightarrow> NormalizedHookInput \<Rightarrow> string \<Rightarrow> ErrorDetectionResult \<Rightarrow> error + effect list" where
  "report_error w input dir errorResult =
     (let features = extractErrorFeatures (message_or_empty (errorMessage errorResult));
          port = getWorkerPort w
      in case JSON_stringify
                (JObject
                   [(''contentSessionId'', JString (sessionId input)),
                    (''error_message'', opt_string (errorMessage errorResult)),
                    (''error_type'', JString (errorType features)),
                    (''keywords'', JArray (map JString (keywords' features))),
                    (''file_path'', opt_string (filePath features)),
                    (''command'', toolInput input),
                    (''cwd'', JString dir)]) of
           Inl e \<Rightarrow> Inl e
         | Inr body \<Rightarrow>
             Inr ([Post (worker_url port ''/api/sessions/errors'') (message_or_empty body),
                   Get (worker_url port ''/api/errors/similar?error_message=''
                        @ encodeURIComponent (message_or_empty (errorMessage errorResult)))]
                  @ (case error_response w of
                       None \<Rightarrow> []
                     | Some err \<Rightarrow> [Log (Debug ''HOOK'' ''Error storage failed'')])
                  @ (case similar_response w of
                       Inl err \<Rightarrow> [Log (Debug ''HOOK'' ''Similar error query failed'')]
                     | Inr (status, titles) \<Rightarrow>
                         if ok status \<and> titles \<noteq> []
                         then [ConsoleLog
                                 (join [CHR 10]
                                    (map (\<lambda>title. ''- **''
                                            @ (case title of None \<Rightarrow> ''Error''
                                               | Some x \<Rightarrow> if x = [] then ''Error'' else x)
                                            @ ''**'')
                                         titles))]
                         else [])))"

text \<open>
  The part of \<open>execute\<close> after its two checks: the observation is sent and awaited, then
  errors are detected in the response. \<open>name\<close> and \<open>dir\<close> are the tool name and the working
  directory, \<open>t1\<close> the effects so far.
\<close>

definition send_observation ::
  "world \<Rightarrow> NormalizedHookInput \<Rightarrow> string \<Rightarrow> string \<Rightarrow> effect list
   \<Rightarrow> effect list \<times> (error + HookResult)" where
  "send_observation w input name dir t1 =
     (case JSON_stringify
             (JObject
                [(''contentSessionId'', JString (sessionId input)),
                 (''tool_name'', JString name),
                 (''tool_input'', toolInput input),
                 (''tool_response'', toolResponse input),
                 (''cwd'', JString dir)]) of
        Inl e \<Rightarrow> (t1, Inl e)
      | Inr body \<Rightarrow>
          let t2 = t1 @ [Post (worker_url (getWorkerPort w) ''/api/sessions/observations'')
                           (message_or_empty body)]
          in case observation_response w of
               Inl e \<Rightarrow> (t2, Inl e)
             | Inr status \<Rightarrow>
                 if \<not> ok status
                 then (t2, Inl (Error (''Observation storage failed: '' @ show_nat status)))
                 else
                   let t3 = t2 @ [Log (Debug ''HOOK'' ''Observation sent successfully'')]
                   in case detectBashError
                             \<lparr>tool_name = name,
                              tool_response = js_or (toolResponse input) (JString [])\<rparr> of
                        Inl e \<Rightarrow> (t3, Inl e)
                      | Inr (logs, errorResult) \<Rightarrow>
                          if isError errorResult
                          then
                            case report_error w input dir errorResult of
                              Inl e \<Rightarrow> (t3 @ map Log logs, Inl e)
                            | Inr t4 \<Rightarrow>
                                (t3 @ map Log logs @ t4,
                                 Inr \<lparr>continue = True, suppressOutput = True\<rparr>)
                          else (t3 @ map Log logs,
                                Inr \<lparr>continue = True, suppressOutput = True\<rparr>))"

text \<open>An optional string that is present and not empty: \<open>!x\<close> holds for the others.\<close>

definition present :: "string option \<Rightarrow> string option" where
  "present s = (case s of None \<Rightarrow> None | Some x \<Rightarrow> if x = [] then None else Some x)"

text \<open>
  \<open>observationHandler.execute\<close>: the effects up to the point where it returns or throws,
  and the result (\<open>Inl\<close> the error thrown).
\<close>

definition execute :: "world \<Rightarrow> NormalizedHookInput \<Rightarrow> effect list \<times> (error + HookResult)" where
  "execute w input =
     (case ensureWorkerRunning w of
        Some e \<Rightarrow> ([EnsureWorkerRunning], Inl e)
      | None \<Rightarrow>
          (case present (toolName input) of
             None \<Rightarrow> ([EnsureWorkerRunning], Inl (Error ''observationHandler requires toolName''))
           | Some name \<Rightarrow>
               let toolStr = formatTool w name (toolInput input);
                   t1 = [EnsureWorkerRunning, Log (DataIn ''HOOK'' (''PostToolUse: '' @ toolStr))]
               in case present (cwd input) of
                    None \<Rightarrow>
                      (t1, Inl (Error (''Missing cwd in PostToolUse hook input for session ''
                                       @ sessionId input @ '', tool '' @ name)))
                  | Some dir \<Rightarrow> send_observation w input name dir t1))"

section \<open>Notions used in the statements\<close>

text \<open>
  The exit code a pattern captures in a text: \<open>parseInt(match[1])\<close> for
  \<open>match = response.match(pattern)\<close>, that is, for the leftmost match of the pattern;
  \<open>None\<close> when the pattern does not match. \<open>nonzero\<close> is the test of the first loop,
  \<open>match && parseInt(match[1]) !== 0\<close>.
\<close>

definition captured :: "regexp \<Rightarrow> string \<Rightarrow> number option" where
  "captured pattern response =
     (case exec pattern response of
        None \<Rightarrow> None
      | Some m \<Rightarrow> Some (parseInt_group (group m 1)))"

definition nonzero :: "number option \<Rightarrow> bool" where
  "nonzero c = (c \<noteq> None \<and> c \<noteq> Some (Finite 0))"

text \<open>
  The Exit-Signal Scanner in the words of the specification (4.1), for comparison with
  the first loop of \<open>detectBashError\<close>: the patterns are tried in order and the first one
  that matches gives the captured integer.
\<close>

fun spec_exit_signal_scanner :: "regexp list \<Rightarrow> string \<Rightarrow> number option" where
  "spec_exit_signal_scanner [] text = None"
| "spec_exit_signal_scanner (p # ps) text =
     (case captured p text of Some n \<Rightarrow> Some n | None \<Rightarrow> spec_exit_signal_scanner ps text)"


text \<open>
  Tokens, for the keywords of \<open>extractErrorFeatures\<close>: the maximal runs of word characters
  (letters, digits, underscore) of a text, from left to right. A token has the all-caps
  shape when it is one upper-case letter A-Z followed by one or more upper-case letters,
  digits or underscores.
\<close>

definition is_upper :: "char \<Rightarrow> bool" where
  "is_upper c = (65 \<le> code_unit c \<and> code_unit c \<le> 90)"

definition is_code_char :: "char \<Rightarrow> bool" where
  "is_code_char c = (is_upper c \<or> is_digit c \<or> c = CHR ''_'')"

definition all_caps :: "string \<Rightarrow> bool" where
  "all_caps w =
     (case w of
        [] \<Rightarrow> False
      | c # cs \<Rightarrow> is_upper c \<and> cs \<noteq> [] \<and> list_all is_code_char cs)"

function tokens :: "string \<Rightarrow> string list" where
  "tokens [] = []"
| "tokens (c # cs) =
     (if is_word c then (c # takeWhile is_word cs) # tokens (dropWhile is_word cs)
      else tokens cs)"
  by pat_completeness auto
termination
  by (relation "measure length") (auto simp: length_dropWhile_le le_imp_less_Suc)

section \<open>Notions used in the proofs\<close>

text \<open>The state reached from \<open>st\<close> by consuming \<open>k\<close> characters, \<open>k\<close> at least one.\<close>

definition adv :: "mstate \<Rightarrow> nat \<Rightarrow> mstate" where
  "adv st k = st\<lparr>prev := Some (rest st ! (k - 1)), rest := drop k (rest st)\<rparr>"

text \<open>Whether the character before the current position is a word character.\<close>

definition prev_word :: "char option \<Rightarrow> bool" where
  "prev_word p = (case p of None \<Rightarrow> False | Some c \<Rightarrow> is_word c)"

text \<open>The matches of the keyword pattern that begin at the current position.\<close>

definition code_here :: "char option \<Rightarrow> string \<Rightarrow> mstate list" where
  "code_here p s =
     ms (source CODE_PATTERN) (ignoreCase CODE_PATTERN) \<lparr>prev = p, rest = s, caps = []\<rparr>"

text \<open>The equation of \<open>match_all\<close> is applied by hand, at the input in question.\<close>

declare match_all.simps [simp del]

text \<open>
  Among the values represented here (trees of plain data: no object refers to itself and
  none has a \<open>toJSON\<close> method), those that \<open>JSON.stringify\<close> serializes without throwing:
  the ones with no BigInt anywhere inside.
\<close>

fun serializable :: "jsvalue \<Rightarrow> bool" where
  "serializable (JBigInt i) = False"
| "serializable (JArray xs) = list_all serializable xs"
| "serializable (JObject kvs) = list_all (\<lambda>kv. serializable (snd kv)) kvs"
| "serializable v = True"

section \<open>Auxiliary facts\<close>

subsection \<open>Characters\<close>

lemma code_unit_char_of [simp]: "code_unit (char_of n) = n mod 256"
  by (simp add: code_unit_def)

lemma code_unit_less [simp]: "code_unit c < 256"
  by (simp add: code_unit_def)

lemma is_digit_toUpperCase [simp]: "is_digit (toUpperCase_char c) = is_digit c"
  by (auto simp: is_digit_def toUpperCase_char_def Let_def)

lemma is_digit_toLowerCase [simp]: "is_digit (toLowerCase_char c) = is_digit c"
  using code_unit_less [of c] by (auto simp: is_digit_def toLowerCase_char_def Let_def mod_if)

lemma atom_match_Digit [simp]: "atom_match ci Digit c = is_digit c"
  by (auto simp: atom_match_def)

lemma is_digit_not_space: "is_digit c \<Longrightarrow> \<not> is_space c"
  by (auto simp: is_digit_def is_space_def)

lemma is_digit_not_sign:
  "is_digit c \<Longrightarrow> c \<noteq> CHR ''-'' \<and> c \<noteq> CHR ''+'' \<and> c \<noteq> CHR ''x'' \<and> c \<noteq> CHR ''X''"
  by (auto simp: is_digit_def code_unit_def)

lemma is_digit_value: "is_digit c \<Longrightarrow> digit_value c < 10"
  by (auto simp: is_digit_def digit_value_def)

subsection \<open>The matcher\<close>

lemma step_char_iff:
  "st1 \<in> set (step_char P st) \<longleftrightarrow>
   (\<exists>c cs. rest st = c # cs \<and> P c \<and> st1 = st\<lparr>prev := Some c, rest := cs\<rparr>)"
  by (cases "rest st") (auto simp: step_char_def)

lemma ms_Atom_fun: "ms (Atom a) ci = step_char (atom_match ci a)"
  by (rule ext) simp

lemma ms_Seq_iff:
  "st' \<in> set (ms (Seq r s) ci st) \<longleftrightarrow> (\<exists>st1 \<in> set (ms r ci st). st' \<in> set (ms s ci st1))"
  by auto

text \<open>A repetition of a one-character step ends after some prefix of characters that all
  pass the test.\<close>

lemma iterate_step_char:
  "st' \<in> set (iterate n (step_char P) st) \<Longrightarrow>
   \<exists>k \<le> length (rest st). rest st' = drop k (rest st) \<and> (\<forall>c \<in> set (take k (rest st)). P c)"
proof (induction n arbitrary: st)
  case 0
  then show ?case by (intro exI [of _ 0]) simp
next
  case (Suc n)
  from Suc.prems consider "st' = st"
    | st1 where "st1 \<in> set (step_char P st)" "st' \<in> set (iterate n (step_char P) st1)"
    by (auto split: if_splits)
  then show ?case
  proof cases
    case 1
    then show ?thesis by (intro exI [of _ 0]) simp
  next
    case 2
    from 2(1) obtain c cs where r: "rest st = c # cs" "P c" "rest st1 = cs"
      by (auto simp: step_char_iff)
    from Suc.IH [OF 2(2)] obtain k where
      k: "k \<le> length cs" "rest st' = drop k cs" "\<forall>c \<in> set (take k cs). P c"
      using r by auto
    show ?thesis
      using r k by (intro exI [of _ "Suc k"]) simp
  qed
qed

lemma ms_Plus_Atom:
  assumes "st' \<in> set (ms (Plus (Atom a)) ci st)"
  shows "\<exists>k \<le> length (rest st). 0 < k \<and> rest st' = drop k (rest st)
           \<and> (\<forall>c \<in> set (take k (rest st)). atom_match ci a c)"
proof -
  from assms obtain st1 where
    1: "st1 \<in> set (step_char (atom_match ci a) st)"
    and 2: "st' \<in> set (iterate (length (rest st1)) (step_char (atom_match ci a)) st1)"
    by (auto simp: ms_Atom_fun)
  from 1 obtain c cs where r: "rest st = c # cs" "atom_match ci a c" "rest st1 = cs"
    by (auto simp: step_char_iff)
  from iterate_step_char [OF 2] obtain k where
    k: "k \<le> length cs" "rest st' = drop k cs" "\<forall>c \<in> set (take k cs). atom_match ci a c"
    using r by auto
  show ?thesis
    using r k by (intro exI [of _ "Suc k"]) simp
qed

text \<open>Whatever \<open>(\d+)\<close> captures is a non-empty run of digits.\<close>

lemma ms_digits:
  assumes "st' \<in> set (ms digits ci st)"
  shows "\<exists>ds. map_of (caps st') 1 = Some ds \<and> ds \<noteq> [] \<and> (\<forall>c \<in> set ds. is_digit c)"
proof -
  from assms obtain st1 where
    1: "st1 \<in> set (ms (Plus (Atom Digit)) ci st)"
    and 2: "st' = st1\<lparr>caps := (1, consumed st st1) # caps st1\<rparr>"
    by (auto simp: digits_def simp del: ms.simps(6))
  from ms_Plus_Atom [OF 1] obtain k where
    k: "k \<le> length (rest st)" "0 < k" "rest st1 = drop k (rest st)"
       "\<forall>c \<in> set (take k (rest st)). is_digit c"
    by auto
  have "consumed st st1 = take k (rest st)"
    using k by (simp add: consumed_def)
  with k 2 show ?thesis by auto
qed

lemma exec_from_groups:
  "exec_from re p s i = Some m \<Longrightarrow>
   \<exists>st st'. st' \<in> set (ms (source re) (ignoreCase re) st) \<and> groups m = caps st'"
proof (induction re p s i rule: exec_from.induct)
  case (1 re p i)
  then show ?case
    by (auto split: list.splits) (metis list.set_intros(1))
next
  case (2 re p c cs i)
  show ?case
  proof (cases "ms (source re) (ignoreCase re) \<lparr>prev = p, rest = c # cs, caps = []\<rparr>")
    case Nil
    with 2 show ?thesis by simp
  next
    case (Cons st' sts)
    with 2(2) have "groups m = caps st'" by auto
    moreover have
      "st' \<in> set (ms (source re) (ignoreCase re) \<lparr>prev = p, rest = c # cs, caps = []\<rparr>)"
      using Cons by simp
    ultimately show ?thesis by blast
  qed
qed

lemma exit_pattern_group:
  assumes "pattern \<in> set EXIT_CODE_PATTERNS" and "exec pattern text = Some m"
  shows "\<exists>ds. group m 1 = Some ds \<and> ds \<noteq> [] \<and> (\<forall>c \<in> set ds. is_digit c)"
proof -
  from assms(2) obtain st st' where
    m: "st' \<in> set (ms (source pattern) (ignoreCase pattern) st)" "groups m = caps st'"
    unfolding exec_def by (blast dest: exec_from_groups)
  from assms(1) m(1) obtain st1 ci where "st' \<in> set (ms digits ci st1)"
    unfolding EXIT_CODE_PATTERNS_def
    by (auto simp: ms_Seq_iff simp del: ms.simps)
  from ms_digits [OF this] m(2) show ?thesis
    by (simp add: group_def)
qed

subsection \<open>parseInt on a run of digits\<close>

lemma parseInt_digits:
  assumes "ds \<noteq> []" and "\<forall>c \<in> set ds. is_digit c"
  shows "parseInt ds = Finite (int (radix_value 10 ds))"
proof -
  from assms obtain d ds' where ds: "ds = d # ds'" by (cases ds) auto
  have d: "is_digit d" using assms ds by simp
  have 1: "dropWhile is_space ds = ds"
    using d ds by (simp add: is_digit_not_space)
  have 2: "take 2 ds \<noteq> ''0x'' \<and> take 2 ds \<noteq> ''0X''"
  proof (cases ds')
    case Nil
    with ds show ?thesis by simp
  next
    case (Cons e es)
    with assms ds have "is_digit e" by simp
    with Cons ds show ?thesis using is_digit_not_sign [of e] by simp
  qed
  have 3: "takeWhile (\<lambda>c. digit_value c < 10) ds = ds"
    using assms(2) by (simp add: is_digit_value)
  have 4: "hd ds \<noteq> CHR ''-'' \<and> hd ds \<noteq> CHR ''+''"
    using d ds is_digit_not_sign [of d] by simp
  show ?thesis
    unfolding parseInt_def Let_def 1 using 2 4 assms(1) by (simp add: 3)
qed

text \<open>The exit code captured by one of the three patterns is a natural number, never
  \<open>NaN\<close>.\<close>

lemma captured_exit_pattern:
  assumes "pattern \<in> set EXIT_CODE_PATTERNS" and "captured pattern text = Some n"
  shows "\<exists>k. n = Finite (int k)"
proof -
  from assms(2) obtain m where m: "exec pattern text = Some m" "n = parseInt_group (group m 1)"
    by (auto simp: captured_def split: option.splits)
  from exit_pattern_group [OF assms(1) m(1)] obtain ds where
    "group m 1 = Some ds" "ds \<noteq> []" "\<forall>c \<in> set ds. is_digit c"
    by auto
  with m(2) show ?thesis
    by (auto simp: parseInt_group_def parseInt_digits)
qed

subsection \<open>The two loops\<close>

lemma exit_code_loop_find:
  "exit_code_loop ps text =
     (case find (\<lambda>p. nonzero (captured p text)) ps of
        None \<Rightarrow> None
      | Some p \<Rightarrow> Some \<lparr>isError = True, errorMessage = Some text, exitCode = captured p text\<rparr>)"
  by (induction ps) (auto simp: captured_def nonzero_def split: option.splits)

lemma find_first_index:
  "i < length ps \<Longrightarrow> P (ps ! i) \<Longrightarrow> \<forall>j<i. \<not> P (ps ! j) \<Longrightarrow> find P ps = Some (ps ! i)"
proof (induction ps arbitrary: i)
  case Nil
  then show ?case by simp
next
  case (Cons p ps)
  show ?case
  proof (cases i)
    case 0
    with Cons.prems show ?thesis by simp
  next
    case (Suc k)
    with Cons.prems have "\<not> P p" by auto
    moreover have "find P ps = Some (ps ! k)"
      using Cons.prems Suc by (intro Cons.IH) auto
    ultimately show ?thesis using Suc by simp
  qed
qed

lemma keyword_loop_eq:
  "keyword_loop ps text =
     (if \<exists>k \<in> set ps. test k text
      then Some ([Debug ''SYSTEM'' ''error keyword detected''],
                 \<lparr>isError = True, errorMessage = Some text, exitCode = None\<rparr>)
      else None)"
  by (induction ps) auto

lemma detectBashError_text:
  "coerce_response v = Inr (Some text) \<Longrightarrow>
   detectBashError \<lparr>tool_name = ''Bash'', tool_response = v\<rparr> =
     Inr (case find (\<lambda>p. nonzero (captured p text)) EXIT_CODE_PATTERNS of
            Some p \<Rightarrow> ([], \<lparr>isError = True, errorMessage = Some text, exitCode = captured p text\<rparr>)
          | None \<Rightarrow>
              if \<exists>k \<in> set ERROR_KEYWORD_PATTERNS. test k text
              then ([Debug ''SYSTEM'' ''error keyword detected''],
                    \<lparr>isError = True, errorMessage = Some text, exitCode = None\<rparr>)
              else ([], \<lparr>isError = False, errorMessage = None, exitCode = None\<rparr>))"
  by (simp add: detectBashError_def exit_code_loop_find keyword_loop_eq split: option.splits)

subsection \<open>Serialization\<close>

lemma collect_Inr:
  "\<forall>r \<in> set rs. \<exists>x. r = Inr x \<Longrightarrow> \<exists>xs. collect rs = Inr xs"
proof (induction rs)
  case Nil
  then show ?case by simp
next
  case (Cons r rs)
  then obtain x xs where "r = Inr x" "collect rs = Inr xs" by auto
  then show ?case by simp
qed

lemma serialize_total:
  "serializable v \<Longrightarrow>
   \<exists>r. SerializeJSONProperty v = Inr r
       \<and> (r = None \<longrightarrow> v = JUndefined \<or> v = JFunction \<or> v = JSymbol)"
proof (induction v)
  case (JArray xs)
  then have "\<forall>r \<in> set (map SerializeJSONProperty xs). \<exists>x. r = Inr x"
    by (auto simp: list_all_iff)
  from collect_Inr [OF this] show ?case by auto
next
  case (JObject kvs)
  have "\<forall>r \<in> set (map (\<lambda>kv. SerializeJSONProperty (snd kv)) kvs). \<exists>x. r = Inr x"
  proof
    fix r assume "r \<in> set (map (\<lambda>kv. SerializeJSONProperty (snd kv)) kvs)"
    then obtain kv where kv: "kv \<in> set kvs" "r = SerializeJSONProperty (snd kv)" by auto
    with JObject.prems have "serializable (snd kv)" by (auto simp: list_all_iff)
    moreover have "snd kv \<in> Basic_BNFs.snds kv" by (cases kv) simp
    ultimately show "\<exists>x. r = Inr x" using JObject.IH kv by blast
  qed
  from collect_Inr [OF this] show ?case by auto
qed simp_all

lemma coerce_response_total:
  assumes "serializable v" and "v \<noteq> JFunction" and "v \<noteq> JSymbol"
  shows "\<exists>response. coerce_response v = Inr (Some response)"
proof (cases "v = JUndefined \<or> v = JNull")
  case True
  then show ?thesis
    by (auto simp: coerce_response_def JSON_stringify_def nullish_def)
next
  case False
  with assms serialize_total [of v] obtain t where "SerializeJSONProperty v = Inr (Some t)"
    by auto
  with False show ?thesis
    by (cases v) (auto simp: coerce_response_def JSON_stringify_def nullish_def)
qed

text \<open>\<open>detectBashError\<close> returns for every tool name and every such response.\<close>

lemma detectBashError_returns:
  assumes "serializable v" and "v \<noteq> JFunction" and "v \<noteq> JSymbol"
  shows "\<exists>log r. detectBashError \<lparr>tool_name = name, tool_response = v\<rparr> = Inr (log, r)"
proof (cases "name = ''Bash''")
  case False
  then show ?thesis by (simp add: detectBashError_def)
next
  case True
  from coerce_response_total [OF assms] obtain response where
    c: "coerce_response v = Inr (Some response)" by blast
  have "\<exists>x. detectBashError \<lparr>tool_name = ''Bash'', tool_response = v\<rparr> = Inr x"
    by (rule exI) (rule detectBashError_text [OF c])
  then obtain x where "detectBashError \<lparr>tool_name = ''Bash'', tool_response = v\<rparr> = Inr x"
    by blast
  then show ?thesis
    unfolding True by (cases x) (simp only: prod.inject sum.inject ex_simps simp_thms)
qed

subsection \<open>The loop over the catalog\<close>

lemma error_type_loop_first:
  "i < length ps \<Longrightarrow> test (fst (ps ! i)) message \<Longrightarrow> \<forall>j<i. \<not> test (fst (ps ! j)) message \<Longrightarrow>
   error_type_loop ps message current = snd (ps ! i)"
proof (induction ps arbitrary: i)
  case Nil
  then show ?case by simp
next
  case (Cons p ps)
  obtain pattern tag where p: "p = (pattern, tag)" by (cases p)
  show ?case
  proof (cases i)
    case 0
    with Cons.prems p show ?thesis by simp
  next
    case (Suc k)
    with Cons.prems p have "\<not> test pattern message" by auto
    moreover have "error_type_loop ps message current = snd (ps ! k)"
      using Cons.prems Suc by (intro Cons.IH) auto
    ultimately show ?thesis using Suc p by simp
  qed
qed

lemma error_type_loop_none:
  "\<forall>p \<in> set ps. \<not> test (fst p) message \<Longrightarrow> error_type_loop ps message current = current"
  by (induction ps) auto

subsection \<open>The handler without a working directory\<close>

lemma execute_no_cwd:
  assumes "cwd input = None \<or> cwd input = Some []"
  shows "execute w input =
     (case ensureWorkerRunning w of
        Some e \<Rightarrow> ([EnsureWorkerRunning], Inl e)
      | None \<Rightarrow>
          (case present (toolName input) of
             None \<Rightarrow> ([EnsureWorkerRunning], Inl (Error ''observationHandler requires toolName''))
           | Some name \<Rightarrow>
               ([EnsureWorkerRunning,
                 Log (DataIn ''HOOK'' (''PostToolUse: '' @ formatTool w name (toolInput input)))],
                Inl (Error (''Missing cwd in PostToolUse hook input for session ''
                            @ sessionId input @ '', tool '' @ name)))))"
proof -
  have "present (cwd input) = None"
    using assms by (auto simp: present_def)
  then show ?thesis
    by (simp add: execute_def Let_def split: option.splits)
qed

subsection \<open>The handler with a working directory\<close>

text \<open>For contrast: with the worker running, a tool name and a working directory, the
  observation is sent.\<close>

lemma send_observation_posts:
  assumes "serializable (toolInput input)" and "serializable (toolResponse input)"
  shows "\<exists>body. Post (worker_url (getWorkerPort w) ''/api/sessions/observations'') body
                 \<in> set (fst (send_observation w input name dir t1))"
proof -
  let ?obj = "JObject
                [(''contentSessionId'', JString (sessionId input)),
                 (''tool_name'', JString name),
                 (''tool_input'', toolInput input),
                 (''tool_response'', toolResponse input),
                 (''cwd'', JString dir)]"
  have "serializable ?obj" using assms by simp
  from serialize_total [OF this] obtain body where
    b: "JSON_stringify ?obj = Inr (Some body)"
    by (auto simp: JSON_stringify_def simp del: SerializeJSONProperty.simps)
  show ?thesis
    unfolding send_observation_def b
    by (auto simp: Let_def message_or_empty_def split: sum.splits prod.splits)
qed

lemma execute_with_cwd_posts:
  assumes "ensureWorkerRunning w = None"
    and "present (toolName input) = Some name" and "present (cwd input) = Some dir"
    and "serializable (toolInput input)" and "serializable (toolResponse input)"
  shows "\<exists>body. Post (worker_url (getWorkerPort w) ''/api/sessions/observations'') body
                 \<in> set (fst (execute w input))"
  using send_observation_posts [OF assms(4,5)] assms(1-3)
  by (simp add: execute_def Let_def)

subsection \<open>A marker inside a serialized value\<close>


lemma char_of_code_unit [simp]: "char_of (code_unit c) = c"
  by (simp add: code_unit_def)

lemma code_unit_eq_iff: "code_unit c = code_unit d \<longleftrightarrow> c = d"
  by (simp add: code_unit_def)











subsection \<open>The keyword pattern\<close>

lemma rev_upt_Suc: "rev [Suc 0..<Suc (Suc m)] = map Suc (rev [Suc 0..<Suc m]) @ [Suc 0]"
proof -
  have "[Suc 0..<Suc (Suc m)] = Suc 0 # map Suc [Suc 0..<Suc m]"
    by (metis One_nat_def map_Suc_upt upt_conv_Cons zero_less_Suc Suc_less_eq)
  then show ?thesis by (simp add: rev_map)
qed

lemma iterate_step_char_list:
  "length (rest st) \<le> n \<Longrightarrow>
   iterate n (step_char P) st
     = map (adv st) (rev [Suc 0..<Suc (length (takeWhile P (rest st)))]) @ [st]"
proof (induction n arbitrary: st)
  case 0
  then show ?case by simp
next
  case (Suc n)
  show ?case
  proof (cases "rest st")
    case Nil
    then show ?thesis by (simp add: step_char_def)
  next
    case (Cons c cs)
    show ?thesis
    proof (cases "P c")
      case False
      with Cons show ?thesis by (simp add: step_char_def)
    next
      case True
      let ?st1 = "st\<lparr>prev := Some c, rest := cs\<rparr>"
      let ?m = "length (takeWhile P cs)"
      have s: "step_char P st = [?st1]"
        using Cons True by (simp add: step_char_def)
      have p: "progress st ?st1"
        using Cons by (simp add: progress_def)
      have "length (rest ?st1) \<le> n" using Suc.prems Cons by simp
      from Suc.IH [OF this]
      have i: "iterate n (step_char P) ?st1 = map (adv ?st1) (rev [Suc 0..<Suc ?m]) @ [?st1]"
        by simp
      have a: "adv st (Suc k) = adv ?st1 k" if "Suc 0 \<le> k" for k
        using that Cons by (cases k) (simp_all add: adv_def)
      have 1: "map (adv st) (map Suc (rev [Suc 0..<Suc ?m])) = map (adv ?st1) (rev [Suc 0..<Suc ?m])"
        by (auto simp: a)
      have 2: "adv st (Suc 0) = ?st1"
        using Cons by (simp add: adv_def)
      have 3: "takeWhile P (rest st) = c # takeWhile P cs"
        using Cons True by simp
      have "map (adv st) (rev [Suc 0..<Suc (Suc ?m)])
              = map (adv st) (map Suc (rev [Suc 0..<Suc ?m])) @ [adv st (Suc 0)]"
        by (simp only: rev_upt_Suc map_append list.map)
      also have "\<dots> = map (adv ?st1) (rev [Suc 0..<Suc ?m]) @ [?st1]"
        by (simp only: 1 2)
      finally have 4: "map (adv st) (rev [Suc 0..<Suc (length (takeWhile P (rest st)))])
              = iterate n (step_char P) ?st1"
        by (simp only: 3 i list.size) simp
      show ?thesis
        unfolding 4 using s p by simp
    qed
  qed
qed

lemma adv_shift:
  assumes "rest st = c # cs"
  shows "map (adv st) (rev [Suc 0..<Suc (Suc m)])
           = map (adv (st\<lparr>prev := Some c, rest := cs\<rparr>)) (rev [Suc 0..<Suc m])
             @ [st\<lparr>prev := Some c, rest := cs\<rparr>]"
proof -
  let ?st1 = "st\<lparr>prev := Some c, rest := cs\<rparr>"
  have a: "adv st (Suc k) = adv ?st1 k" if "Suc 0 \<le> k" for k
    using that assms by (cases k) (simp_all add: adv_def)
  have 1: "map (adv st) (map Suc (rev [Suc 0..<Suc m])) = map (adv ?st1) (rev [Suc 0..<Suc m])"
    by (auto simp: a)
  have 2: "adv st (Suc 0) = ?st1"
    using assms by (simp add: adv_def)
  have "map (adv st) (rev [Suc 0..<Suc (Suc m)])
          = map (adv st) (map Suc (rev [Suc 0..<Suc m])) @ [adv st (Suc 0)]"
    by (simp only: rev_upt_Suc map_append list.map)
  then show ?thesis by (simp only: 1 2)
qed

lemma ms_Class_fun: "ms (Class as) ci = step_char (\<lambda>c. \<exists>a \<in> set as. atom_match ci a c)"
  by (rule ext) simp

lemma ms_Plus_Class:
  "ms (Plus (Class as)) ci st
     = map (adv st)
         (rev [Suc 0..<Suc (length (takeWhile (\<lambda>c. \<exists>a \<in> set as. atom_match ci a c) (rest st)))])"
proof -
  let ?P = "\<lambda>c. \<exists>a \<in> set as. atom_match ci a c"
  have u: "ms (Plus (Class as)) ci st
             = concat (map (\<lambda>st'. iterate (length (rest st')) (step_char ?P) st') (step_char ?P st))"
    by (simp add: ms_Class_fun)
  show ?thesis
  proof (cases "rest st")
    case Nil
    then show ?thesis unfolding u by (simp add: step_char_def)
  next
    case (Cons c cs)
    show ?thesis
    proof (cases "?P c")
      case False
      with Cons show ?thesis unfolding u by (simp add: step_char_def)
    next
      case True
      let ?st1 = "st\<lparr>prev := Some c, rest := cs\<rparr>"
      have s: "step_char ?P st = [?st1]"
        using Cons True by (simp add: step_char_def)
      have t: "takeWhile ?P (rest st) = c # takeWhile ?P cs"
        using Cons True by simp
      have "iterate (length (rest ?st1)) (step_char ?P) ?st1
              = map (adv ?st1) (rev [Suc 0..<Suc (length (takeWhile ?P (rest ?st1)))]) @ [?st1]"
        by (rule iterate_step_char_list) simp
      then have "iterate (length (rest ?st1)) (step_char ?P) ?st1
              = map (adv st) (rev [Suc 0..<Suc (Suc (length (takeWhile ?P cs)))])"
        by (simp only: adv_shift [OF Cons]) simp
      then show ?thesis
        unfolding u s t by simp
    qed
  qed
qed

lemma filter_last_only:
  assumes "\<forall>k. Suc 0 \<le> k \<and> k < m \<longrightarrow> \<not> Q (g k)"
  shows "filter Q (map g (rev [Suc 0..<Suc m])) = (if 0 < m \<and> Q (g m) then [g m] else [])"
proof (cases m)
  case 0
  then show ?thesis by simp
next
  case (Suc n)
  have "filter Q (map g (rev [Suc 0..<m])) = []"
    using assms by (auto simp: filter_empty_conv)
  then show ?thesis using Suc by simp
qed

lemma concat_map_if: "concat (map (\<lambda>x. if Q x then [x] else []) xs) = filter Q xs"
  by (induction xs) auto

lemma upper_class: "atom_match False (CharRange CHR ''A'' CHR ''Z'') c = is_upper c"
  by (simp add: atom_match_def is_upper_def code_unit_def)

lemma code_class:
  "(\<exists>a \<in> set [CharRange CHR ''A'' CHR ''Z'', CharRange CHR ''0'' CHR ''9'', Lit CHR ''_''].
      atom_match False a c) = is_code_char c"
  by (auto simp: atom_match_def is_code_char_def is_upper_def is_digit_def code_unit_def)

lemma is_upper_word: "is_upper c \<Longrightarrow> is_word c"
  by (simp add: is_upper_def is_word_def)

lemma is_code_char_word: "is_code_char c \<Longrightarrow> is_word c"
  by (auto simp: is_code_char_def is_upper_def is_digit_def is_word_def code_unit_def)

lemma ms_Boundary_Seq: "ms (Seq Boundary r) ci st = (if at_boundary st then ms r ci st else [])"
  by simp

lemma ms_Seq_Boundary: "ms (Seq r Boundary) ci st = filter at_boundary (ms r ci st)"
proof -
  have "ms Boundary ci = (\<lambda>x. if at_boundary x then [x] else [])"
    by (rule ext) simp
  then show ?thesis by (simp add: concat_map_if)
qed

lemma step_char_cong: "(\<And>c. P c = Q c) \<Longrightarrow> step_char P = step_char Q"
  by (rule ext) (simp add: step_char_def split: list.splits)

lemma ms_upper: "ms (Class [CharRange CHR ''A'' CHR ''Z'']) False = step_char is_upper"
  unfolding ms_Class_fun by (rule step_char_cong) (simp add: upper_class)

lemma ms_Plus_code:
  "ms (Plus (Class [CharRange CHR ''A'' CHR ''Z'', CharRange CHR ''0'' CHR ''9'', Lit CHR ''_''])) False st
     = map (adv st) (rev [Suc 0..<Suc (length (takeWhile is_code_char (rest st)))])"
proof -
  have "(\<lambda>c. \<exists>a \<in> set [CharRange CHR ''A'' CHR ''Z'', CharRange CHR ''0'' CHR ''9'', Lit CHR ''_''].
               atom_match False a c) = is_code_char"
    by (rule ext) (rule code_class)
  then show ?thesis by (simp only: ms_Plus_Class)
qed

lemma code_here_eq:
  "code_here p s =
     (if at_boundary \<lparr>prev = p, rest = s, caps = []\<rparr>
      then filter at_boundary
             (map (\<lambda>st'. st'\<lparr>caps := (1, consumed \<lparr>prev = p, rest = s, caps = []\<rparr> st') # caps st'\<rparr>)
                (concat (map (\<lambda>st1. map (adv st1)
                                (rev [Suc 0..<Suc (length (takeWhile is_code_char (rest st1)))]))
                           (step_char is_upper \<lparr>prev = p, rest = s, caps = []\<rparr>))))
      else [])"
proof -
  let ?C = "Class [CharRange CHR ''A'' CHR ''Z'', CharRange CHR ''0'' CHR ''9'', Lit CHR ''_'']"
  let ?U = "Class [CharRange CHR ''A'' CHR ''Z'']"
  have 1: "ms (Seq ?U (Plus ?C)) False st
             = concat (map (\<lambda>st1. map (adv st1)
                                (rev [Suc 0..<Suc (length (takeWhile is_code_char (rest st1)))]))
                           (step_char is_upper st))" for st
    unfolding ms.simps(3) ms_upper using ms_Plus_code by presburger
  show ?thesis
    unfolding code_here_def CODE_PATTERN_def regexp.simps ms_Boundary_Seq ms_Seq_Boundary
      ms.simps(8) 1 ..
qed

lemma code_here_Nil: "code_here p [] = []"
  by (simp add: code_here_eq step_char_def)

lemma code_here_not_upper: "\<not> is_upper c \<Longrightarrow> code_here p (c # cs) = []"
  by (simp add: code_here_eq step_char_def)

lemma code_here_inside: "prev_word p \<Longrightarrow> is_word c \<Longrightarrow> code_here p (c # cs) = []"
  by (simp add: code_here_eq at_boundary_def prev_word_def split: option.splits)

lemma boundary_after_word:
  "is_word a \<Longrightarrow>
   at_boundary \<lparr>prev = Some a, rest = d, caps = cp\<rparr> \<longleftrightarrow> d = [] \<or> \<not> is_word (hd d)"
  by (cases d) (simp_all add: at_boundary_def)

lemma code_here_upper:
  assumes "\<not> prev_word p" and "is_upper c"
  shows "code_here p (c # cs) =
     (if takeWhile is_code_char cs \<noteq> []
         \<and> (dropWhile is_code_char cs = [] \<or> \<not> is_word (hd (dropWhile is_code_char cs)))
      then [\<lparr>prev = Some (last (takeWhile is_code_char cs)), rest = dropWhile is_code_char cs,
             caps = [(1, c # takeWhile is_code_char cs)]\<rparr>]
      else [])"
proof -
  let ?st0 = "\<lparr>prev = p, rest = c # cs, caps = []\<rparr>"
  let ?st1 = "\<lparr>prev = Some c, rest = cs, caps = []\<rparr>"
  let ?r = "takeWhile is_code_char cs"
  let ?d = "dropWhile is_code_char cs"
  let ?m = "length ?r"
  let ?g = "\<lambda>k. (adv ?st1 k)\<lparr>caps := (1, consumed ?st0 (adv ?st1 k)) # caps (adv ?st1 k)\<rparr>"
  have b0: "at_boundary ?st0"
    using assms by (simp add: at_boundary_def prev_word_def is_upper_word split: option.splits)
  have s: "step_char is_upper ?st0 = [?st1]"
    using assms(2) by (simp add: step_char_def)
  have e: "code_here p (c # cs) = filter at_boundary (map ?g (rev [Suc 0..<Suc ?m]))"
    unfolding code_here_eq s using b0 by (simp del: upt_Suc add: comp_def)
  have nth: "is_code_char (cs ! j)" if "j < ?m" for j
  proof -
    have "?r ! j \<in> set ?r" using that by simp
    then have "is_code_char (?r ! j)" by (blast dest: set_takeWhileD)
    then show ?thesis using that by (simp add: takeWhile_nth)
  qed
  have le: "?m \<le> length cs" by (rule length_takeWhile_le)
  have inner: "\<not> at_boundary (?g k)" if "Suc 0 \<le> k \<and> k < ?m" for k
  proof -
    from that have "k - 1 < ?m" by arith
    then have 1: "is_word (cs ! (k - 1))" by (intro is_code_char_word nth)
    from that have 2: "is_word (cs ! k)" by (intro is_code_char_word nth) simp
    from that le have "drop k cs = cs ! k # drop (Suc k) cs"
      by (simp add: Cons_nth_drop_Suc)
    with 1 2 show ?thesis by (simp add: at_boundary_def adv_def)
  qed
  have d: "drop ?m cs = ?d" by (simp add: dropWhile_eq_drop)
  have r: "take ?m cs = ?r" by (simp add: takeWhile_eq_take [symmetric])
  have gm: "?g ?m = \<lparr>prev = Some (last ?r), rest = ?d, caps = [(1, c # ?r)]\<rparr>" if "0 < ?m"
  proof -
    have "last ?r = ?r ! (?m - 1)" using that by (simp add: last_conv_nth)
    also have "\<dots> = cs ! (?m - 1)" using that by (simp add: takeWhile_nth)
    finally have l: "cs ! (?m - 1) = last ?r" by simp
    have "length (c # cs) - length (drop ?m cs) = Suc ?m" using le by simp
    then have "consumed ?st0 (adv ?st1 ?m) = c # ?r"
      using r by (simp add: consumed_def adv_def)
    then show ?thesis using l d by (simp add: adv_def)
  qed
  have bm: "at_boundary (?g ?m) \<longleftrightarrow> ?d = [] \<or> \<not> is_word (hd ?d)" if "0 < ?m"
  proof -
    have "is_word (last ?r)"
      using that by (intro is_code_char_word) (metis last_in_set length_greater_0_conv set_takeWhileD)
    then show ?thesis
      unfolding gm [OF that] by (rule boundary_after_word)
  qed
  show ?thesis
  proof (cases "0 < ?m")
    case False
    then show ?thesis unfolding e by simp
  next
    case True
    from filter_last_only [of ?m at_boundary ?g] inner
    have f: "filter at_boundary (map ?g (rev [Suc 0..<Suc ?m]))
            = (if 0 < ?m \<and> at_boundary (?g ?m) then [?g ?m] else [])"
      by blast
    have rne: "?r \<noteq> []" using True by simp
    have "code_here p (c # cs) = (if at_boundary (?g ?m) then [?g ?m] else [])"
      unfolding e f using True by (simp only: simp_thms)
    also have "\<dots> = (if ?d = [] \<or> \<not> is_word (hd ?d) then [?g ?m] else [])"
      by (simp only: bm [OF True])
    also have "\<dots> = (if ?r \<noteq> [] \<and> (?d = [] \<or> \<not> is_word (hd ?d))
                      then [\<lparr>prev = Some (last ?r), rest = ?d, caps = [(1, c # ?r)]\<rparr>]
                      else [])"
      by (simp only: gm [OF True] rne simp_thms)
    finally show ?thesis .
  qed
qed

lemma exec_from_index:
  "exec_from re p s i = map_option (\<lambda>m. m\<lparr>index := index m + i\<rparr>) (exec_from re p s 0)"
proof (induction s arbitrary: p i)
  case Nil
  then show ?case by (simp split: list.splits)
next
  case (Cons c cs)
  show ?case
  proof (cases "ms (source re) (ignoreCase re) \<lparr>prev = p, rest = c # cs, caps = []\<rparr>")
    case Nil
    have "exec_from re p (c # cs) i = exec_from re (Some c) cs (Suc i)"
      using Nil by simp
    also have "\<dots> = map_option (\<lambda>m. m\<lparr>index := index m + Suc i\<rparr>) (exec_from re (Some c) cs 0)"
      by (rule Cons.IH)
    finally have l: "exec_from re p (c # cs) i
        = map_option (\<lambda>m. m\<lparr>index := index m + Suc i\<rparr>) (exec_from re (Some c) cs 0)" .
    have "exec_from re p (c # cs) 0 = exec_from re (Some c) cs (Suc 0)"
      using Nil by simp
    also have "\<dots> = map_option (\<lambda>m. m\<lparr>index := index m + Suc 0\<rparr>) (exec_from re (Some c) cs 0)"
      by (rule Cons.IH)
    finally show ?thesis
      unfolding l by (simp add: option.map_comp comp_def)
  next
    case (Cons st' sts)
    then show ?thesis by simp
  qed
qed

lemma match_all_Nil:
  "ms (source re) (ignoreCase re) \<lparr>prev = p, rest = [], caps = []\<rparr> = [] \<Longrightarrow> match_all re p [] = []"
  by (simp add: match_all.simps [of re p "[]"])

lemma match_all_skip:
  assumes "ms (source re) (ignoreCase re) \<lparr>prev = p, rest = c # cs, caps = []\<rparr> = []"
  shows "match_all re p (c # cs) = match_all re (Some c) cs"
proof -
  have e: "exec_from re p (c # cs) 0
             = map_option (\<lambda>m. m\<lparr>index := index m + 1\<rparr>) (exec_from re (Some c) cs 0)"
    using assms exec_from_index [of re "Some c" cs "Suc 0"] by simp
  show ?thesis
  proof (cases "exec_from re (Some c) cs 0")
    case None
    with e show ?thesis
      by (simp add: match_all.simps [of re p "c # cs"] match_all.simps [of re "Some c" cs])
  next
    case (Some m)
    let ?k = "index m + max 1 (length (matched m))"
    have k: "0 < ?k" by (metis add_gr_0 max.strict_coboundedI1 zero_less_one)
    have "match_all re p (c # cs)
            = matched m # (if Suc ?k \<le> length (c # cs)
                            then match_all re (Some ((c # cs) ! ?k)) (drop (Suc ?k) (c # cs))
                            else [])"
      using e Some by (simp add: match_all.simps [of re p "c # cs"] Let_def)
    also have "\<dots> = matched m # (if ?k \<le> length cs
                            then match_all re (Some (cs ! (?k - 1))) (drop ?k cs)
                            else [])"
      using k by (simp add: nth_Cons')
    also have "\<dots> = match_all re (Some c) cs"
      using Some by (simp add: match_all.simps [of re "Some c" cs] Let_def)
    finally show ?thesis .
  qed
qed

lemma match_all_hit:
  assumes "ms (source re) (ignoreCase re) \<lparr>prev = p, rest = w @ d, caps = []\<rparr> = st' # sts"
    and "rest st' = d" and "w \<noteq> []"
  shows "match_all re p (w @ d) = w # match_all re (Some (last w)) d"
proof -
  from assms(3) obtain c cs where s: "w @ d = c # cs" by (cases w) auto
  have "exec_from re p (c # cs) 0
          = Some \<lparr>index = 0, matched = take (length (c # cs) - length d) (c # cs), groups = caps st'\<rparr>"
    using assms(1,2) s by simp
  also have "take (length (c # cs) - length d) (c # cs) = w"
    unfolding s [symmetric] by simp
  finally have e: "exec_from re p (w @ d) 0 = Some \<lparr>index = 0, matched = w, groups = caps st'\<rparr>"
    unfolding s .
  have l: "max 1 (length w) = length w" using assms(3) by (cases w) simp_all
  have n: "(w @ d) ! (length w - 1) = last w"
    using assms(3) by (simp add: nth_append last_conv_nth)
  show ?thesis
    using e l n by (simp add: match_all.simps [of re p "w @ d"])
qed

lemma code_here_ms:
  "ms (source CODE_PATTERN) (ignoreCase CODE_PATTERN) \<lparr>prev = p, rest = s, caps = []\<rparr> = code_here p s"
  by (simp add: code_here_def)

lemma takeWhile_code_word:
  "list_all is_code_char (takeWhile is_word cs) \<Longrightarrow>
   takeWhile is_code_char cs = takeWhile is_word cs
   \<and> dropWhile is_code_char cs = dropWhile is_word cs"
  by (induction cs) (auto simp: is_code_char_word)

lemma takeWhile_word_code:
  "dropWhile is_code_char cs = [] \<or> \<not> is_word (hd (dropWhile is_code_char cs)) \<Longrightarrow>
   takeWhile is_word cs = takeWhile is_code_char cs"
  by (induction cs) (auto simp: is_code_char_word split: if_splits)

lemma dropWhile_word_start:
  "dropWhile is_word cs = [] \<or> \<not> is_word (hd (dropWhile is_word cs))"
  using hd_dropWhile [of is_word cs] by blast

lemma dropWhile_again:
  "d = [] \<or> \<not> is_word (hd d) \<Longrightarrow> dropWhile is_word d = d"
  by (cases d) auto

lemma match_all_code:
  "match_all CODE_PATTERN p s
     = filter all_caps (tokens (if prev_word p then dropWhile is_word s else s))"
proof (induction "length s" arbitrary: p s rule: less_induct)
  case less
  show ?case
  proof (cases s)
    case Nil
    then show ?thesis
      by (simp add: match_all_Nil code_here_ms code_here_Nil)
  next
    case (Cons c cs)
    have IH: "match_all CODE_PATTERN q t
                = filter all_caps (tokens (if prev_word q then dropWhile is_word t else t))"
      if "length t < length s" for q t
      using less that by blast
    have skip: "match_all CODE_PATTERN p s = match_all CODE_PATTERN (Some c) cs"
      if "code_here p (c # cs) = []"
      unfolding Cons by (rule match_all_skip) (simp add: code_here_ms that)
    have next_c: "match_all CODE_PATTERN (Some c) cs
                    = filter all_caps (tokens (if is_word c then dropWhile is_word cs else cs))"
      using IH [of cs "Some c"] Cons by (simp add: prev_word_def)
    consider (inside) "prev_word p" "is_word c"
      | (gap) "\<not> is_word c"
      | (start) "\<not> prev_word p" "is_word c"
      by blast
    then show ?thesis
    proof cases
      case inside
      from skip [OF code_here_inside [OF inside]] next_c inside Cons
      show ?thesis by simp
    next
      case gap
      then have "\<not> is_upper c" by (blast dest: is_upper_word)
      from skip [OF code_here_not_upper [OF this]] next_c gap Cons
      show ?thesis by simp
    next
      case start
      let ?w = "c # takeWhile is_word cs"
      let ?d = "dropWhile is_word cs"
      have rhs: "tokens (if prev_word p then dropWhile is_word s else s) = ?w # tokens ?d"
        using start Cons by simp
      show ?thesis
      proof (cases "all_caps ?w")
        case True
        then have u: "is_upper c" and ne: "takeWhile is_word cs \<noteq> []"
          and all: "list_all is_code_char (takeWhile is_word cs)"
          by (simp_all add: all_caps_def)
        from takeWhile_code_word [OF all]
        have t: "takeWhile is_code_char cs = takeWhile is_word cs"
          and d: "dropWhile is_code_char cs = ?d"
          by simp_all
        have here: "code_here p (c # cs)
                = [\<lparr>prev = Some (last (takeWhile is_word cs)), rest = ?d,
                    caps = [(1, ?w)]\<rparr>]"
          unfolding code_here_upper [OF start(1) u] t d
          using ne dropWhile_word_start [of cs] by simp
        have s: "s = ?w @ ?d" using Cons by simp
        have "match_all CODE_PATTERN p (?w @ ?d) = ?w # match_all CODE_PATTERN (Some (last ?w)) ?d"
          by (rule match_all_hit [where st' = "\<lparr>prev = Some (last (takeWhile is_word cs)), rest = ?d,
                    caps = [(1, ?w)]\<rparr>" and sts = "[]"])
             (simp_all add: code_here_ms here [simplified])
        moreover have "length ?d < length s"
          using Cons by (simp add: length_dropWhile_le le_imp_less_Suc)
        moreover have "is_word (last ?w)"
          using start(2) by (metis last_in_set list.distinct(1) set_ConsD set_takeWhileD)
        moreover have "dropWhile is_word ?d = ?d"
          by (rule dropWhile_again) (rule dropWhile_word_start)
        ultimately have "match_all CODE_PATTERN p s = ?w # filter all_caps (tokens ?d)"
          using IH [of ?d "Some (last ?w)"] s by (simp add: prev_word_def)
        with rhs True show ?thesis by simp
      next
        case False
        have "code_here p (c # cs) = []"
        proof (cases "is_upper c")
          case u: True
          have "\<not> (takeWhile is_code_char cs \<noteq> []
                   \<and> (dropWhile is_code_char cs = []
                        \<or> \<not> is_word (hd (dropWhile is_code_char cs))))"
          proof
            assume a: "takeWhile is_code_char cs \<noteq> []
                   \<and> (dropWhile is_code_char cs = []
                        \<or> \<not> is_word (hd (dropWhile is_code_char cs)))"
            then have "takeWhile is_word cs = takeWhile is_code_char cs"
              by (intro takeWhile_word_code) blast
            moreover have "list_all is_code_char (takeWhile is_code_char cs)"
              by (auto simp: list_all_iff dest: set_takeWhileD)
            ultimately have "all_caps ?w"
              using a u by (simp add: all_caps_def)
            with False show False ..
          qed
          then show ?thesis
            unfolding code_here_upper [OF start(1) u] by simp
        next
          case False
          then show ?thesis by (rule code_here_not_upper)
        qed
        from skip [OF this] next_c start rhs False
        show ?thesis by simp
      qed
    qed
  qed
qed

section \<open>Properties\<close>

text \<open>
  C4. For every tool response whatsoever, when the tool name is not \<open>Bash\<close>,
  \<open>detectBashError\<close> returns \<open>isError = false\<close> (with no message and no exit code, and
  nothing logged).
\<close>

theorem detectBashError_other_tool:
  "tool_name input \<noteq> ''Bash'' \<Longrightarrow>
   detectBashError input = Inr ([], \<lparr>isError = False, errorMessage = None, exitCode = None\<rparr>)"
  by (simp add: detectBashError_def)

theorem detectBashError_other_tool_witness:
  "detectBashError \<lparr>tool_name = ''Read'', tool_response = JString ''Error: file not found''\<rparr>
   = Inr ([], \<lparr>isError = False, errorMessage = None, exitCode = None\<rparr>)"
  using detectBashError_other_tool
          [of "\<lparr>tool_name = ''Read'', tool_response = JString ''Error: file not found''\<rparr>"]
  by simp

text \<open>
  C1, as stated: whenever the response text contains an exit-code pattern with a non-zero
  captured value, the result is an error whose \<open>exitCode\<close> is that captured value. This
  fails in two ways. In the first text below the third pattern captures 5, and the result
  is an error with exit code 3, captured by the first pattern of the table. In the second
  text the occurrence \<open>exit code: 5\<close> of the first pattern captures 5, and the result is no
  error: only the leftmost match of a pattern is read, and there it captures 0.
\<close>

theorem exit_code_capture_counterexample:
  "captured (EXIT_CODE_PATTERNS ! 2) ''returned 5, exit code: 3'' = Some (Finite 5)
   \<and> detectBashError \<lparr>tool_name = ''Bash'', tool_response = JString ''returned 5, exit code: 3''\<rparr>
     = Inr ([], \<lparr>isError = True, errorMessage = Some ''returned 5, exit code: 3'',
                 exitCode = Some (Finite 3)\<rparr>)
   \<and> captured (EXIT_CODE_PATTERNS ! 0) ''exit code: 5'' = Some (Finite 5)
   \<and> detectBashError
       \<lparr>tool_name = ''Bash'',
        tool_response = JString (''exit code: 0'' @ [CHR 10] @ ''exit code: 5'')\<rparr>
     = Inr ([], \<lparr>isError = False, errorMessage = None, exitCode = None\<rparr>)"
  by code_simp

text \<open>
  C1, amended. A call with tool name \<open>Bash\<close> whose response text is \<open>response\<close> (a string, or
  the serialization of another value). The value a pattern captures is \<open>parseInt\<close> of the
  digits in its leftmost match. When some pattern \<open>p\<close> of the table captures a non-zero
  value, the result has \<open>isError = true\<close> and \<open>errorMessage\<close> equal to the full response text,
  and its \<open>exitCode\<close> is the value captured by the first pattern, in the order of the table,
  that captures a non-zero value. This is the value captured by \<open>p\<close> whenever no pattern
  captures a different non-zero value.
\<close>

theorem detectBashError_nonzero_exit_code:
  assumes "coerce_response v = Inr (Some response)"
    and "p \<in> set EXIT_CODE_PATTERNS"
    and "nonzero (captured p response)"
  shows "(\<exists>i<length EXIT_CODE_PATTERNS.
            nonzero (captured (EXIT_CODE_PATTERNS ! i) response)
            \<and> (\<forall>j<i. \<not> nonzero (captured (EXIT_CODE_PATTERNS ! j) response))
            \<and> detectBashError \<lparr>tool_name = ''Bash'', tool_response = v\<rparr>
                = Inr ([], \<lparr>isError = True, errorMessage = Some response,
                            exitCode = captured (EXIT_CODE_PATTERNS ! i) response\<rparr>))
         \<and> ((\<forall>q \<in> set EXIT_CODE_PATTERNS.
                nonzero (captured q response) \<longrightarrow> captured q response = captured p response)
              \<longrightarrow> detectBashError \<lparr>tool_name = ''Bash'', tool_response = v\<rparr>
                    = Inr ([], \<lparr>isError = True, errorMessage = Some response,
                                exitCode = captured p response\<rparr>))"
proof -
  let ?P = "\<lambda>q. nonzero (captured q response)"
  from assms(2,3) obtain q where q: "find ?P EXIT_CODE_PATTERNS = Some q"
    by (cases "find ?P EXIT_CODE_PATTERNS") (auto simp: find_None_iff)
  then obtain i where i: "i < length EXIT_CODE_PATTERNS" "q = EXIT_CODE_PATTERNS ! i"
    "?P q" "\<forall>j<i. \<not> ?P (EXIT_CODE_PATTERNS ! j)"
    by (auto simp: find_Some_iff)
  have res: "detectBashError \<lparr>tool_name = ''Bash'', tool_response = v\<rparr>
               = Inr ([], \<lparr>isError = True, errorMessage = Some response,
                           exitCode = captured q response\<rparr>)"
    using detectBashError_text [OF assms(1)] q by simp
  have 1: "\<exists>i<length EXIT_CODE_PATTERNS.
            ?P (EXIT_CODE_PATTERNS ! i)
            \<and> (\<forall>j<i. \<not> ?P (EXIT_CODE_PATTERNS ! j))
            \<and> detectBashError \<lparr>tool_name = ''Bash'', tool_response = v\<rparr>
                = Inr ([], \<lparr>isError = True, errorMessage = Some response,
                            exitCode = captured (EXIT_CODE_PATTERNS ! i) response\<rparr>)"
    using i res by blast
  have 2: "detectBashError \<lparr>tool_name = ''Bash'', tool_response = v\<rparr>
             = Inr ([], \<lparr>isError = True, errorMessage = Some response,
                         exitCode = captured p response\<rparr>)"
    if "\<forall>q \<in> set EXIT_CODE_PATTERNS. ?P q \<longrightarrow> captured q response = captured p response"
  proof -
    have "q \<in> set EXIT_CODE_PATTERNS" using i(1,2) by simp
    with that i(3) have "captured q response = captured p response" by blast
    with res show ?thesis by (simp only:)
  qed
  from 1 2 show ?thesis by blast
qed

theorem detectBashError_nonzero_exit_code_witness:
  "EXIT_CODE_PATTERNS ! 0 \<in> set EXIT_CODE_PATTERNS
   \<and> captured (EXIT_CODE_PATTERNS ! 0) (''Error: command not found'' @ [CHR 10] @ ''Exit code: 1'')
     = Some (Finite 1)
   \<and> nonzero (Some (Finite 1))
   \<and> detectBashError
       \<lparr>tool_name = ''Bash'',
        tool_response = JString (''Error: command not found'' @ [CHR 10] @ ''Exit code: 1'')\<rparr>
     = Inr ([], \<lparr>isError = True,
                 errorMessage = Some (''Error: command not found'' @ [CHR 10] @ ''Exit code: 1''),
                 exitCode = Some (Finite 1)\<rparr>)"
proof -
  let ?a = "''Error: command not found'' @ [CHR 10] @ ''Exit code: 1''"
  let ?p = "EXIT_CODE_PATTERNS ! 0"
  have m: "?p \<in> set EXIT_CODE_PATTERNS"
    by (simp add: EXIT_CODE_PATTERNS_def)
  have c: "captured ?p ?a = Some (Finite 1)"
    by code_simp
  have z: "nonzero (Some (Finite 1))"
    by (simp add: nonzero_def)
  have n: "nonzero (captured ?p ?a)"
    unfolding c by (rule z)
  have u: "\<forall>q \<in> set EXIT_CODE_PATTERNS.
             nonzero (captured q ?a) \<longrightarrow> captured q ?a = captured ?p ?a"
    by code_simp
  have va: "coerce_response (JString ?a) = Inr (Some ?a)"
    by (simp add: coerce_response_def)
  from detectBashError_nonzero_exit_code [OF va m n, THEN conjunct2, THEN mp, OF u]
  have "detectBashError \<lparr>tool_name = ''Bash'', tool_response = JString ?a\<rparr>
          = Inr ([], \<lparr>isError = True, errorMessage = Some ?a, exitCode = captured ?p ?a\<rparr>)" .
  then have d: "detectBashError \<lparr>tool_name = ''Bash'', tool_response = JString ?a\<rparr>
          = Inr ([], \<lparr>isError = True, errorMessage = Some ?a, exitCode = Some (Finite 1)\<rparr>)"
    unfolding c .
  from m c z d show ?thesis by (intro conjI)
qed



text \<open>
  C5. Every result that \<open>detectBashError\<close> returns, for any input: when \<open>isError\<close> is false
  both optional fields are absent; \<open>errorMessage\<close> is present exactly when \<open>isError\<close> is
  true; and an \<open>exitCode\<close> that is present is a number other than zero (and not \<open>NaN\<close>) and
  comes with \<open>isError = true\<close>.
\<close>

theorem detectBashError_invariant:
  assumes "detectBashError input = Inr (log, r)"
  shows "(\<not> isError r \<longrightarrow> errorMessage r = None \<and> exitCode r = None)
         \<and> (errorMessage r \<noteq> None \<longleftrightarrow> isError r)
         \<and> (\<forall>n. exitCode r = Some n \<longrightarrow> n \<noteq> Finite 0 \<and> n \<noteq> NaN \<and> isError r)"
proof (cases "tool_name input = ''Bash''")
  case False
  with assms show ?thesis by (auto simp: detectBashError_def)
next
  case True
  with assms obtain response where resp: "coerce_response (tool_response input) = Inr (Some response)"
    by (auto simp: detectBashError_def split: sum.splits option.splits)
  have inp: "input = \<lparr>tool_name = ''Bash'', tool_response = tool_response input\<rparr>"
    using True by simp
  let ?P = "\<lambda>p. nonzero (captured p response)"
  show ?thesis
  proof (cases "find ?P EXIT_CODE_PATTERNS")
    case None
    with detectBashError_text [OF resp] assms inp show ?thesis
      by (auto split: if_splits)
  next
    case (Some p)
    with detectBashError_text [OF resp] assms inp
    have r: "r = \<lparr>isError = True, errorMessage = Some response, exitCode = captured p response\<rparr>"
      by auto
    from Some have mem: "p \<in> set EXIT_CODE_PATTERNS" and nz: "?P p"
      by (auto simp: find_Some_iff)
    from nz obtain e where e: "captured p response = Some e" "e \<noteq> Finite 0"
      by (auto simp: nonzero_def)
    from captured_exit_pattern [OF mem e(1)] have "e \<noteq> NaN" by auto
    with r e show ?thesis by simp
  qed
qed

theorem detectBashError_invariant_witness:
  "detectBashError \<lparr>tool_name = ''Bash'', tool_response = JString ''Process exited with code 127''\<rparr>
     = Inr ([], \<lparr>isError = True, errorMessage = Some ''Process exited with code 127'',
                 exitCode = Some (Finite 127)\<rparr>)
   \<and> Finite 127 \<noteq> Finite 0 \<and> Finite 127 \<noteq> NaN"
proof -
  have h: "detectBashError
             \<lparr>tool_name = ''Bash'', tool_response = JString ''Process exited with code 127''\<rparr>
           = Inr ([], \<lparr>isError = True, errorMessage = Some ''Process exited with code 127'',
                       exitCode = Some (Finite 127)\<rparr>)"
    by code_simp
  from detectBashError_invariant [OF h] h show ?thesis
    by simp
qed

text \<open>
  C2, as stated: the verdict of the exit-code path is that of the first pattern, in the
  order of the table, that matches; when this pattern captures zero no error is derived
  from the exit-code path. This fails: in the text below the first pattern that matches
  captures 0, and the result is an error with exit code 2, taken from the third pattern.
\<close>

theorem exit_code_first_match_counterexample:
  "spec_exit_signal_scanner EXIT_CODE_PATTERNS ''exit code: 0, returned 2'' = Some (Finite 0)
   \<and> detectBashError \<lparr>tool_name = ''Bash'', tool_response = JString ''exit code: 0, returned 2''\<rparr>
     = Inr ([], \<lparr>isError = True, errorMessage = Some ''exit code: 0, returned 2'',
                 exitCode = Some (Finite 2)\<rparr>)"
  by code_simp

text \<open>
  C2, amended. The verdict of the exit-code path is that of the first pattern, in the order
  of the table, whose match captures a non-zero value: a pattern that does not match, or
  whose match captures zero, is passed over and the later patterns are still tried. When
  no pattern captures a non-zero value, the result is that of the keyword scan of the same
  full text (no error when no keyword pattern matches).
\<close>

theorem detectBashError_first_nonzero:
  assumes "coerce_response v = Inr (Some response)"
  shows "(\<forall>i<length EXIT_CODE_PATTERNS.
            nonzero (captured (EXIT_CODE_PATTERNS ! i) response)
            \<and> (\<forall>j<i. \<not> nonzero (captured (EXIT_CODE_PATTERNS ! j) response))
            \<longrightarrow> detectBashError \<lparr>tool_name = ''Bash'', tool_response = v\<rparr>
                  = Inr ([], \<lparr>isError = True, errorMessage = Some response,
                              exitCode = captured (EXIT_CODE_PATTERNS ! i) response\<rparr>))
         \<and> ((\<forall>p \<in> set EXIT_CODE_PATTERNS. \<not> nonzero (captured p response))
            \<longrightarrow> detectBashError \<lparr>tool_name = ''Bash'', tool_response = v\<rparr>
                  = Inr (case keyword_loop ERROR_KEYWORD_PATTERNS response of
                           Some lr \<Rightarrow> lr
                         | None \<Rightarrow> ([], \<lparr>isError = False, errorMessage = None, exitCode = None\<rparr>)))"
proof (intro conjI allI impI)
  fix i
  assume "i < length EXIT_CODE_PATTERNS"
    and "nonzero (captured (EXIT_CODE_PATTERNS ! i) response)
         \<and> (\<forall>j<i. \<not> nonzero (captured (EXIT_CODE_PATTERNS ! j) response))"
  then have "find (\<lambda>p. nonzero (captured p response)) EXIT_CODE_PATTERNS
               = Some (EXIT_CODE_PATTERNS ! i)"
    by (intro find_first_index) auto
  with detectBashError_text [OF assms]
  show "detectBashError \<lparr>tool_name = ''Bash'', tool_response = v\<rparr>
          = Inr ([], \<lparr>isError = True, errorMessage = Some response,
                      exitCode = captured (EXIT_CODE_PATTERNS ! i) response\<rparr>)"
    by simp
next
  assume "\<forall>p \<in> set EXIT_CODE_PATTERNS. \<not> nonzero (captured p response)"
  then have "find (\<lambda>p. nonzero (captured p response)) EXIT_CODE_PATTERNS = None"
    by (simp add: find_None_iff)
  with detectBashError_text [OF assms]
  show "detectBashError \<lparr>tool_name = ''Bash'', tool_response = v\<rparr>
          = Inr (case keyword_loop ERROR_KEYWORD_PATTERNS response of
                   Some lr \<Rightarrow> lr
                 | None \<Rightarrow> ([], \<lparr>isError = False, errorMessage = None, exitCode = None\<rparr>))"
    by (simp add: keyword_loop_eq)
qed

theorem detectBashError_first_nonzero_witness:
  "detectBashError \<lparr>tool_name = ''Bash'', tool_response = JString ''returned 0; exited with code 3''\<rparr>
     = Inr ([], \<lparr>isError = True, errorMessage = Some ''returned 0; exited with code 3'',
                 exitCode = Some (Finite 3)\<rparr>)
   \<and> detectBashError
       \<lparr>tool_name = ''Bash'', tool_response = JString (''Success'' @ [CHR 10] @ ''Exit code: 0'')\<rparr>
     = Inr ([], \<lparr>isError = False, errorMessage = None, exitCode = None\<rparr>)"
proof -
  let ?a = "''returned 0; exited with code 3''"
  let ?b = "''Success'' @ [CHR 10] @ ''Exit code: 0''"
  have va: "coerce_response (JString ?a) = Inr (Some ?a)"
    and vb: "coerce_response (JString ?b) = Inr (Some ?b)"
    by (simp_all add: coerce_response_def)
  have l: "1 < length EXIT_CODE_PATTERNS"
    by (simp add: EXIT_CODE_PATTERNS_def)
  have a1: "captured (EXIT_CODE_PATTERNS ! 1) ?a = Some (Finite 3)"
    by code_simp
  have a0: "\<forall>j<1. \<not> nonzero (captured (EXIT_CODE_PATTERNS ! j) ?a)"
    by code_simp
  have b0: "\<forall>p \<in> set EXIT_CODE_PATTERNS. \<not> nonzero (captured p ?b)"
    by code_simp
  have bk: "keyword_loop ERROR_KEYWORD_PATTERNS ?b = None"
    by code_simp
  from detectBashError_first_nonzero [OF va] l a1 a0
  have "detectBashError \<lparr>tool_name = ''Bash'', tool_response = JString ?a\<rparr>
          = Inr ([], \<lparr>isError = True, errorMessage = Some ?a, exitCode = Some (Finite 3)\<rparr>)"
    by (auto simp: nonzero_def)
  moreover from detectBashError_first_nonzero [OF vb] b0 bk
  have "detectBashError \<lparr>tool_name = ''Bash'', tool_response = JString ?b\<rparr>
          = Inr ([], \<lparr>isError = False, errorMessage = None, exitCode = None\<rparr>)"
    by simp
  ultimately show ?thesis by simp
qed

text \<open>
  C6, as stated: a non-text response is serialized without failing, and the serialization
  of an \<open>undefined\<close> response is the empty string. This fails: the serialization of
  \<open>undefined\<close> is the text of two double quotes, which is not empty, and the serialization
  of a BigInt throws a \<open>TypeError\<close>.
\<close>

theorem coerce_response_counterexample:
  "coerce_response JUndefined = Inr (Some [CHR 0x22, CHR 0x22])
   \<and> [CHR 0x22, CHR 0x22] \<noteq> ([] :: string)
   \<and> coerce_response (JBigInt 1) = Inl (TypeError ''Do not know how to serialize a BigInt'')"
  by (simp add: coerce_response_def JSON_stringify_def nullish_def QuoteJSONString_def)

text \<open>
  C6, amended. A response that is already text is used as it is. Any other response is
  serialized with \<open>JSON.stringify\<close>, \<open>undefined\<close> and \<open>null\<close> being replaced by the empty string
  first: what is scanned is the outcome of that call, and when it is a text the result
  is the one obtained for that text given as a string. For an \<open>undefined\<close> or \<open>null\<close>
  response the text scanned is the two double quotes of a serialized empty string, and
  the result is \<open>isError = false\<close>.
\<close>

theorem coerce_response_serializes:
  "coerce_response (JString s) = Inr (Some s)
   \<and> ((\<forall>s. v \<noteq> JString s)
        \<longrightarrow> coerce_response v = JSON_stringify (nullish v (JString [])))
   \<and> ((\<forall>s. v \<noteq> JString s) \<and> JSON_stringify (nullish v (JString [])) = Inr (Some json)
        \<longrightarrow> detectBashError \<lparr>tool_name = ''Bash'', tool_response = v\<rparr>
              = detectBashError \<lparr>tool_name = ''Bash'', tool_response = JString json\<rparr>)
   \<and> coerce_response JUndefined = Inr (Some [CHR 0x22, CHR 0x22])
   \<and> coerce_response JNull = Inr (Some [CHR 0x22, CHR 0x22])
   \<and> detectBashError \<lparr>tool_name = ''Bash'', tool_response = JUndefined\<rparr>
       = Inr ([], \<lparr>isError = False, errorMessage = None, exitCode = None\<rparr>)
   \<and> detectBashError \<lparr>tool_name = ''Bash'', tool_response = JNull\<rparr>
       = Inr ([], \<lparr>isError = False, errorMessage = None, exitCode = None\<rparr>)"
proof -
  have 1: "coerce_response (JString s) = Inr (Some s)"
    by (simp add: coerce_response_def)
  have 2: "coerce_response v = JSON_stringify (nullish v (JString []))" if "\<forall>s. v \<noteq> JString s"
    using that by (cases v) (simp_all add: coerce_response_def)
  have 3: "detectBashError \<lparr>tool_name = ''Bash'', tool_response = v\<rparr>
             = detectBashError \<lparr>tool_name = ''Bash'', tool_response = JString json\<rparr>"
    if h: "(\<forall>s. v \<noteq> JString s) \<and> JSON_stringify (nullish v (JString [])) = Inr (Some json)"
  proof -
    from h 2 have c: "coerce_response v = Inr (Some json)" by simp
    have cs: "coerce_response (JString json) = Inr (Some json)"
      by (simp add: coerce_response_def)
    show ?thesis
      by (simp only: detectBashError_text [OF c] detectBashError_text [OF cs])
  qed
  have 4: "coerce_response JUndefined = Inr (Some [CHR 0x22, CHR 0x22])"
    "coerce_response JNull = Inr (Some [CHR 0x22, CHR 0x22])"
    by (simp_all add: coerce_response_def JSON_stringify_def nullish_def QuoteJSONString_def)
  have 5: "detectBashError \<lparr>tool_name = ''Bash'', tool_response = JUndefined\<rparr>
       = Inr ([], \<lparr>isError = False, errorMessage = None, exitCode = None\<rparr>)"
    "detectBashError \<lparr>tool_name = ''Bash'', tool_response = JNull\<rparr>
       = Inr ([], \<lparr>isError = False, errorMessage = None, exitCode = None\<rparr>)"
    by code_simp+
  from 1 2 3 4 5 show ?thesis by blast
qed

theorem coerce_response_serializes_witness:
  "coerce_response (JObject [(''stderr'', JString ''exit code: 2''), (''ok'', JBoolean False)])
     = Inr (Some (''{'' @ [CHR 0x22] @ ''stderr'' @ [CHR 0x22] @ '':'' @ [CHR 0x22]
                  @ ''exit code: 2'' @ [CHR 0x22] @ '','' @ [CHR 0x22] @ ''ok'' @ [CHR 0x22]
                  @ '':false}''))
   \<and> detectBashError
       \<lparr>tool_name = ''Bash'',
        tool_response = JObject [(''stderr'', JString ''exit code: 2''), (''ok'', JBoolean False)]\<rparr>
     = Inr ([], \<lparr>isError = True,
                 errorMessage =
                   Some (''{'' @ [CHR 0x22] @ ''stderr'' @ [CHR 0x22] @ '':'' @ [CHR 0x22]
                         @ ''exit code: 2'' @ [CHR 0x22] @ '','' @ [CHR 0x22] @ ''ok'' @ [CHR 0x22]
                         @ '':false}''),
                 exitCode = Some (Finite 2)\<rparr>)"
proof -
  let ?v = "JObject [(''stderr'', JString ''exit code: 2''), (''ok'', JBoolean False)]"
  let ?j = "''{'' @ [CHR 0x22] @ ''stderr'' @ [CHR 0x22] @ '':'' @ [CHR 0x22]
            @ ''exit code: 2'' @ [CHR 0x22] @ '','' @ [CHR 0x22] @ ''ok'' @ [CHR 0x22]
            @ '':false}''"
  have n: "\<forall>s. ?v \<noteq> JString s" by simp
  have j: "JSON_stringify (nullish ?v (JString [])) = Inr (Some ?j)" by code_simp
  have d: "detectBashError \<lparr>tool_name = ''Bash'', tool_response = JString ?j\<rparr>
             = Inr ([], \<lparr>isError = True, errorMessage = Some ?j, exitCode = Some (Finite 2)\<rparr>)"
    by code_simp
  note T = coerce_response_serializes [of "[]" ?v ?j]
  from T [THEN conjunct2, THEN conjunct1, THEN mp, OF n]
  have "coerce_response ?v = JSON_stringify (nullish ?v (JString []))" .
  then have 1: "coerce_response ?v = Inr (Some ?j)"
    unfolding j .
  from n j have "(\<forall>s. ?v \<noteq> JString s) \<and> JSON_stringify (nullish ?v (JString [])) = Inr (Some ?j)"
    by (intro conjI)
  from T [THEN conjunct2, THEN conjunct2, THEN conjunct1, THEN mp, OF this]
  have "detectBashError \<lparr>tool_name = ''Bash'', tool_response = ?v\<rparr>
          = detectBashError \<lparr>tool_name = ''Bash'', tool_response = JString ?j\<rparr>" .
  then have 2: "detectBashError \<lparr>tool_name = ''Bash'', tool_response = ?v\<rparr>
          = Inr ([], \<lparr>isError = True, errorMessage = Some ?j, exitCode = Some (Finite 2)\<rparr>)"
    unfolding d .
  from 1 2 show ?thesis by (intro conjI)
qed

text \<open>
  C8. For every text, the \<open>errorType\<close> that \<open>extractErrorFeatures\<close> returns is the tag of the
  first pattern of the catalog, in its order, that matches the text, and it is \<open>unknown\<close>
  when no pattern of the catalog matches; for \<open>npm ERR! code ENOENT\<close> it is \<open>npm\<close>.
\<close>

theorem extractErrorFeatures_errorType:
  "(\<forall>i<length ERROR_TYPE_PATTERNS.
      test (fst (ERROR_TYPE_PATTERNS ! i)) message
      \<and> (\<forall>j<i. \<not> test (fst (ERROR_TYPE_PATTERNS ! j)) message)
      \<longrightarrow> errorType (extractErrorFeatures message) = snd (ERROR_TYPE_PATTERNS ! i))
   \<and> ((\<forall>p \<in> set ERROR_TYPE_PATTERNS. \<not> test (fst p) message)
      \<longrightarrow> errorType (extractErrorFeatures message) = ''unknown'')
   \<and> errorType (extractErrorFeatures ''npm ERR! code ENOENT'') = ''npm''"
proof (intro conjI allI impI)
  fix i
  assume "i < length ERROR_TYPE_PATTERNS"
    and "test (fst (ERROR_TYPE_PATTERNS ! i)) message
         \<and> (\<forall>j<i. \<not> test (fst (ERROR_TYPE_PATTERNS ! j)) message)"
  then show "errorType (extractErrorFeatures message) = snd (ERROR_TYPE_PATTERNS ! i)"
    by (simp add: extractErrorFeatures_def error_type_loop_first)
next
  assume "\<forall>p \<in> set ERROR_TYPE_PATTERNS. \<not> test (fst p) message"
  then show "errorType (extractErrorFeatures message) = ''unknown''"
    by (simp add: extractErrorFeatures_def error_type_loop_none)
next
  show "errorType (extractErrorFeatures ''npm ERR! code ENOENT'') = ''npm''"
    by code_simp
qed

theorem extractErrorFeatures_errorType_witness:
  "test (fst (ERROR_TYPE_PATTERNS ! 5)) ''pip install failed: TypeError is not the error''
   \<and> test (fst (ERROR_TYPE_PATTERNS ! 0)) ''pip install failed: TypeError is not the error''
   \<and> errorType (extractErrorFeatures ''pip install failed: TypeError is not the error'')
       = ''TypeError''
   \<and> errorType (extractErrorFeatures ''Some random error message'') = ''unknown''"
proof -
  let ?a = "''pip install failed: TypeError is not the error''"
  let ?b = "''Some random error message''"
  have l: "0 < length ERROR_TYPE_PATTERNS"
    by (simp add: ERROR_TYPE_PATTERNS_def)
  have a5: "test (fst (ERROR_TYPE_PATTERNS ! 5)) ?a" by code_simp
  have a0: "test (fst (ERROR_TYPE_PATTERNS ! 0)) ?a" by code_simp
  have t0: "snd (ERROR_TYPE_PATTERNS ! 0) = ''TypeError''"
    by (simp add: ERROR_TYPE_PATTERNS_def)
  have b: "\<forall>p \<in> set ERROR_TYPE_PATTERNS. \<not> test (fst p) ?b" by code_simp
  from extractErrorFeatures_errorType [of ?a] l
  have "test (fst (ERROR_TYPE_PATTERNS ! 0)) ?a
          \<and> (\<forall>j<0. \<not> test (fst (ERROR_TYPE_PATTERNS ! j)) ?a)
        \<longrightarrow> errorType (extractErrorFeatures ?a) = snd (ERROR_TYPE_PATTERNS ! 0)"
    by blast
  with a0 t0 have "errorType (extractErrorFeatures ?a) = ''TypeError''" by simp
  moreover from extractErrorFeatures_errorType [of ?b] b
  have "errorType (extractErrorFeatures ?b) = ''unknown''" by simp
  ultimately show ?thesis using a5 a0 by simp
qed

text \<open>
  C9. When the working directory of the invocation is absent (or empty), \<open>execute\<close> throws
  an error and sends no request: neither the observation nor an error record is
  submitted. When the worker is running and the tool name is present, the error thrown is
  the one that names the missing \<open>cwd\<close>.
\<close>

theorem execute_missing_cwd:
  assumes "cwd input = None \<or> cwd input = Some []"
  shows "(\<exists>e. snd (execute w input) = Inl e)
         \<and> (\<forall>url body. Post url body \<notin> set (fst (execute w input)))
         \<and> (ensureWorkerRunning w = None \<and> toolName input = Some name \<and> name \<noteq> []
              \<longrightarrow> snd (execute w input)
                    = Inl (Error (''Missing cwd in PostToolUse hook input for session ''
                                  @ sessionId input @ '', tool '' @ name)))"
  unfolding execute_no_cwd [OF assms] by (auto simp: present_def split: option.splits)

theorem execute_missing_cwd_witness:
  "execute
     \<lparr>ensureWorkerRunning = None, getWorkerPort = 37777, formatTool = (\<lambda>name i. name),
      observation_response = Inr 200, error_response = None, similar_response = Inr (200, [])\<rparr>
     \<lparr>sessionId = ''s1'', cwd = None, toolName = Some ''Bash'',
      toolInput = JObject [(''command'', JString ''ls'')],
      toolResponse = JString ''exit code: 2''\<rparr>
   = ([EnsureWorkerRunning, Log (DataIn ''HOOK'' ''PostToolUse: Bash'')],
      Inl (Error ''Missing cwd in PostToolUse hook input for session s1, tool Bash''))"
proof -
  let ?w = "\<lparr>ensureWorkerRunning = None, getWorkerPort = 37777, formatTool = (\<lambda>name i. name),
      observation_response = Inr 200, error_response = None, similar_response = Inr (200, [])\<rparr>"
  let ?i = "\<lparr>sessionId = ''s1'', cwd = None, toolName = Some ''Bash'',
      toolInput = JObject [(''command'', JString ''ls'')],
      toolResponse = JString ''exit code: 2''\<rparr>"
  have "fst (execute ?w ?i) = [EnsureWorkerRunning, Log (DataIn ''HOOK'' ''PostToolUse: Bash'')]"
    by (simp add: execute_def present_def Let_def)
  moreover from execute_missing_cwd [of ?i ?w "''Bash''"]
  have "snd (execute ?w ?i)
          = Inl (Error ''Missing cwd in PostToolUse hook input for session s1, tool Bash'')"
    by simp
  ultimately show ?thesis by (simp add: prod_eq_iff)
qed



text \<open>
  C7. For every text, the keywords that \<open>extractErrorFeatures\<close> returns are exactly the
  tokens of the all-caps shape that are at least four characters long, in the order in
  which they appear in the text, a token that recurs being listed each time, and each
  token as it is written in the text. Tokens of length three or less are left out.
\<close>

theorem extractErrorFeatures_keywords:
  "keywords' (extractErrorFeatures message)
     = filter (\<lambda>w. 4 \<le> length w) (filter all_caps (tokens message))"
proof -
  have "match_all CODE_PATTERN None message = filter all_caps (tokens message)"
    by (simp add: match_all_code prev_word_def)
  then show ?thesis
    by (cases "filter all_caps (tokens message)")
       (auto simp: extractErrorFeatures_def match_global_def Suc_le_eq numeral_eq_Suc
             split: list.splits intro!: filter_cong)
qed

theorem extractErrorFeatures_keywords_witness:
  "keywords' (extractErrorFeatures ''ERR ABC LONGCODE fooBAR_BAZ EPERM eperm E_2: EPERM'')
     = [''LONGCODE'', ''EPERM'', ''EPERM'']"
proof -
  have h: "filter (\<lambda>w. 4 \<le> length w)
          (filter all_caps (tokens ''ERR ABC LONGCODE fooBAR_BAZ EPERM eperm E_2: EPERM''))
        = [''LONGCODE'', ''EPERM'', ''EPERM'']"
    by (simp add: all_caps_def is_word_def is_upper_def is_code_char_def is_digit_def
          code_unit_def)
  show ?thesis
    unfolding extractErrorFeatures_keywords by (rule h)
qed

end
